theory Spec2Isabelle
  imports Main "HOL-Library.Word"
begin

unbundle bit_operations_syntax

section \<open>Machine types and the wire format\<close>

text \<open>
  The embedding follows \<^verbatim>\<open>src/general.cc\<close>. Buffers are lists of bytes, and the
  \<^verbatim>\<open>n\<close> passed beside a \<^verbatim>\<open>char*\<close> is the length of the list. \<^verbatim>\<open>unsigned int\<close>
  and \<^verbatim>\<open>uint32_t\<close> are 32-bit words, \<^verbatim>\<open>size_t\<close> is a 64-bit word. Sizes of real
  containers (\<^verbatim>\<open>size()\<close>) are read as natural numbers.
\<close>

type_synonym byte = "8 word"
type_synonym u32 = "32 word"
type_synonym size_t = "64 word"

text \<open>
  \<^verbatim>\<open>htonl\<close> followed by the store of the four bytes, and the load of four bytes followed
  by \<^verbatim>\<open>ntohl\<close>: the most significant byte comes first in the buffer, on every host.
\<close>

definition u32_of_bytes :: "byte \<Rightarrow> byte \<Rightarrow> byte \<Rightarrow> byte \<Rightarrow> u32" where
  "u32_of_bytes b0 b1 b2 b3 =
     push_bit 24 (ucast b0) OR push_bit 16 (ucast b1) OR push_bit 8 (ucast b2) OR ucast b3"

definition htonl_bytes :: "u32 \<Rightarrow> byte list" where
  "htonl_bytes w =
     [ucast (drop_bit 24 w), ucast (drop_bit 16 w), ucast (drop_bit 8 w), ucast w]"

definition ntohl_at :: "byte list \<Rightarrow> nat \<Rightarrow> u32" where
  "ntohl_at buf off =
     u32_of_bytes (buf ! off) (buf ! (off + 1)) (buf ! (off + 2)) (buf ! (off + 3))"

text \<open>
  \<^verbatim>\<open>msg::Order\<close> is an enumeration that travels as a 32-bit integer;
  \<^verbatim>\<open>ByzantineMsgFromBuf\<close> casts whatever 32-bit value arrives to it, so an order is a
  32-bit word here.
\<close>

type_synonym Order = u32

text \<open>
  Modelled from the spec: the values of the enumerators of \<^verbatim>\<open>msg::Order\<close>, which
  \<^verbatim>\<open>message.h\<close> declares and which is absent. The spec's data model gives 0 = RETREAT
  and 1 = ATTACK.
\<close>

definition RETREAT :: Order where
  "RETREAT = 0"

definition ATTACK :: Order where
  "ATTACK = 1"

text \<open>
  \<^verbatim>\<open>msg::Message\<close>, the decoded relay, with the three members \<^verbatim>\<open>general.cc\<close> reads and
  writes. Two messages are the same when the three members are.
\<close>

record Message =
  round :: u32
  order :: Order
  ids :: "u32 list"

text \<open>
  Modelled from the spec: \<^verbatim>\<open>struct msg::ByzantineMessage\<close> and \<^verbatim>\<open>struct msg::Ack\<close> are
  declared in \<^verbatim>\<open>message.h\<close>, which is absent. The spec's wire frames are
  \<^verbatim>\<open>[u32 type][u32 size][u32 round][u32 order]\<close> followed by the ids, and
  \<^verbatim>\<open>[u32 type][u32 size][u32 round]\<close>: sixteen and twelve bytes, \<^verbatim>\<open>round\<close> at offset 8,
  \<^verbatim>\<open>order\<close> at offset 12.
\<close>

definition sizeof_ByzantineMessage :: nat where
  "sizeof_ByzantineMessage = 16"

definition sizeof_Ack :: nat where
  "sizeof_Ack = 12"

definition sizeof_uint32_t :: nat where
  "sizeof_uint32_t = 4"

definition ByzantineMsgFromBuf :: "byte list \<Rightarrow> Message option" where
  "ByzantineMsgFromBuf buf =
     (let n = length buf in
      if n < sizeof_ByzantineMessage then None
      else Some \<lparr>round = ntohl_at buf 8,
                 order = ntohl_at buf 12,
                 ids = map (\<lambda>i. ntohl_at buf (sizeof_ByzantineMessage + sizeof_uint32_t * i))
                         [0 ..< (n - sizeof_ByzantineMessage) div sizeof_uint32_t]\<rparr>)"

definition RoundOfAck :: "byte list \<Rightarrow> u32 option" where
  "RoundOfAck buf =
     (if length buf \<noteq> sizeof_Ack then None else Some (ntohl_at buf 8))"

text \<open>
  The buffer \<^verbatim>\<open>SendMessage\<close> builds and hands to \<^verbatim>\<open>SendWithAck\<close>. The type tag
  \<^verbatim>\<open>kByzantineMessageType\<close> is a constant of an absent header and is a parameter here.
  \<^verbatim>\<open>htonl(size)\<close> narrows the \<^verbatim>\<open>size_t\<close> to 32 bits.
\<close>

definition SendMessage :: "u32 \<Rightarrow> Message \<Rightarrow> byte list" where
  "SendMessage kByzantineMessageType msg =
     (let size = sizeof_ByzantineMessage + sizeof_uint32_t * length (ids msg) in
      htonl_bytes kByzantineMessageType @ htonl_bytes (of_nat size) @
      htonl_bytes (round msg) @ htonl_bytes (order msg) @
      concat (map htonl_bytes (ids msg)))"

text \<open>The buffer \<^verbatim>\<open>SendAckForRound\<close> sends; \<^verbatim>\<open>kAckType\<close> is a parameter likewise.\<close>

definition SendAckForRound :: "u32 \<Rightarrow> u32 \<Rightarrow> byte list" where
  "SendAckForRound kAckType r =
     htonl_bytes kAckType @ htonl_bytes (of_nat sizeof_Ack) @ htonl_bytes r"

section \<open>Round counting\<close>

function MessagesForRound :: "size_t \<Rightarrow> u32 \<Rightarrow> size_t" where
  "MessagesForRound process_num r =
     (if r = 0 then 1
      else (process_num - 1 - ucast r) * MessagesForRound process_num (r - 1))"
  by pat_completeness auto
termination
  by (relation "measure (\<lambda>(process_num, r). unat r)") (auto simp: unat_minus_one unat_gt_0)

declare MessagesForRound.simps [simp del]

text \<open>
  The recurrence in the spec's words, over the integers: \<open>M(n, 0) = 1\<close> and
  \<open>M(n, k) = (n - 1 - k) * M(n, k - 1)\<close>.
\<close>

fun spec_M :: "int \<Rightarrow> nat \<Rightarrow> int" where
  "spec_M n 0 = 1"
| "spec_M n (Suc k) = (n - 1 - int (Suc k)) * spec_M n k"

section \<open>The generals\<close>

text \<open>
  Modelled from the spec: \<^verbatim>\<open>net::Address\<close>, whose header is absent. The spec's data model
  makes it a pair of a hostname and a port.
\<close>

record Address =
  hostname :: string
  port :: nat

text \<open>
  Modelled from the spec: the classes \<^verbatim>\<open>Commander\<close> and \<^verbatim>\<open>Lieutenant\<close>, which \<^verbatim>\<open>general.h\<close>
  declares and which is absent. The fields are the members \<^verbatim>\<open>general.cc\<close> uses, and
  \<open>faulty_'\<close> for the tolerated-fault count \<open>m\<close> of the spec's process input, which
  fixes the last round. The three containers of the Lieutenant are used as sets
  (\<^verbatim>\<open>insert\<close>, \<^verbatim>\<open>count\<close>, \<^verbatim>\<open>size\<close>, \<^verbatim>\<open>clear\<close>, iteration) and are sets here.

  A name cannot end in an underscore here, so the members \<^verbatim>\<open>round_\<close>, \<^verbatim>\<open>id_\<close>, ...
  are written \<open>round_'\<close>, \<open>id_'\<close>, ...
\<close>

record General =
  id_' :: u32
  processes_' :: "Address list"
  round_' :: u32
  faulty_' :: u32

record Commander = General +
  order_' :: Order

record Lieutenant = General +
  orders_seen_' :: "Order set"
  msgs_this_round_' :: "Message set"
  ids_this_round_' :: "u32 list set"

text \<open>
  Modelled from the spec: \<^verbatim>\<open>udp::ServerAction\<close>, whose header is absent; a callback
  answers Continue or Stop.
\<close>

datatype ServerAction = Continue | Stop

datatype error =
  LogicError \<comment> \<open>\<^verbatim>\<open>std::logic_error\<close> thrown by \<^verbatim>\<open>InitNewRound\<close>\<close>
| OutOfRange \<comment> \<open>a read of \<^verbatim>\<open>msg.ids[0]\<close> on an empty vector\<close>

text \<open>
  What a callback does to the network: \<^verbatim>\<open>SendAckForRound(client, r)\<close> to the sender's
  client, and the sender threads \<^verbatim>\<open>InitNewRound\<close> spawns, as the set of pairs
  \<open>(pid, msg)\<close> for which \<^verbatim>\<open>SendMessage(clients_[processes_[pid]], msg)\<close> is run.
\<close>

datatype effect =
  AckSent Address u32
| RelaysSpawned "(nat \<times> Message) set"

text \<open>
  Modelled from the spec: the helpers \<^verbatim>\<open>FirstRound\<close>, \<^verbatim>\<open>LastRound\<close> and \<^verbatim>\<open>IncrementRound\<close>,
  which \<^verbatim>\<open>general.h\<close> defines and which is absent. In the spec the rounds are numbered
  from 0, the last round is round \<open>m\<close>, and a round advance increments \<^verbatim>\<open>round_\<close>.
\<close>

definition FirstRound :: "'a General_scheme \<Rightarrow> bool" where
  "FirstRound s = (round_' s = 0)"

definition LastRound :: "'a General_scheme \<Rightarrow> bool" where
  "LastRound s = (round_' s = faulty_' s)"

definition IncrementRound :: "Lieutenant \<Rightarrow> Lieutenant" where
  "IncrementRound s = s\<lparr>round_' := round_' s + 1\<rparr>"

text \<open>The functions of \<^verbatim>\<open>general.cc\<close>.\<close>

definition DecideOrder :: "Lieutenant \<Rightarrow> Order" where
  "DecideOrder s =
     (if card (orders_seen_' s) = 1 \<and> ATTACK \<in> orders_seen_' s then ATTACK else RETREAT)"

definition RoundComplete :: "Lieutenant \<Rightarrow> bool" where
  "RoundComplete s =
     (card (ids_this_round_' s) =
        unat (MessagesForRound (of_nat (length (processes_' s))) (round_' s)))"

definition ContinueUnlessTimeout :: "Lieutenant \<Rightarrow> ServerAction" where
  "ContinueUnlessTimeout s = Continue"

text \<open>
  \<^verbatim>\<open>ValidMessage\<close>, check by check in the source's order. \<^verbatim>\<open>msg.round + 1\<close> is computed
  in \<^verbatim>\<open>unsigned int\<close> and wraps; when it wraps to 0 and the path is empty, the source
  goes on to read \<^verbatim>\<open>msg.ids[0]\<close> past the end of the vector, which is the branch
  \<open>Inl OutOfRange\<close>.
\<close>

definition ValidMessage :: "Lieutenant \<Rightarrow> Message \<Rightarrow> Address \<Rightarrow> error + bool" where
  "ValidMessage s msg from_addr =
     (if round msg \<noteq> round_' s then Inr False
      else if unat (round msg + 1) \<noteq> length (ids msg) then Inr False
      else if ids msg = [] then Inl OutOfRange
      else if ids msg ! 0 \<noteq> 0 then Inr False
      else if \<exists>i \<in> set (ids msg). unat i \<ge> length (processes_' s) \<or> i = id_' s then Inr False
      else if card (set (ids msg)) < length (ids msg) then Inr False
      else if hostname (processes_' s ! unat (last (ids msg))) \<noteq> hostname from_addr
        then Inr False
      else Inr True)"

text \<open>
  \<^verbatim>\<open>InitNewRound\<close>: the round is incremented first; a retained message that is not of
  the previous round throws; otherwise every retained message is forwarded, with the
  new round and the own id appended, to every process that is not on its path, and the
  two per-round sets are cleared.
\<close>

definition forward :: "Lieutenant \<Rightarrow> Message \<Rightarrow> Message" where
  "forward s msg = msg\<lparr>round := round_' s, ids := ids msg @ [id_' s]\<rparr>"

definition toSend :: "Lieutenant \<Rightarrow> (nat \<times> Message) set" where
  "toSend s =
     (\<Union>msg \<in> msgs_this_round_' s.
        (\<lambda>pid. (pid, forward s msg)) `
          {pid \<in> {0 ..< length (processes_' s)}. \<not> (\<exists>i \<in> set (ids (forward s msg)). unat i = pid)})"

definition InitNewRound :: "Lieutenant \<Rightarrow> error + (Lieutenant \<times> (nat \<times> Message) set)" where
  "InitNewRound s0 =
     (let s = IncrementRound s0 in
      if \<exists>msg \<in> msgs_this_round_' s. round msg \<noteq> round_' s - 1 then Inl LogicError
      else Inr (s\<lparr>msgs_this_round_' := {}, ids_this_round_' := {}\<rparr>, toSend s))"

type_synonym callback_result = "error + (ServerAction \<times> Lieutenant \<times> effect list)"

definition MoveToNewRoundOrStop :: "Lieutenant \<Rightarrow> callback_result" where
  "MoveToNewRoundOrStop s =
     (if LastRound s then Inr (Stop, s, [])
      else (case InitNewRound s of
              Inl e \<Rightarrow> Inl e
            | Inr (s', relays) \<Rightarrow> Inr (Continue, s', [RelaysSpawned relays])))"

definition HandleRoundTimeout :: "Lieutenant \<Rightarrow> callback_result" where
  "HandleRoundTimeout s =
     (if FirstRound s then Inr (Continue, s, []) else MoveToNewRoundOrStop s)"

text \<open>Puts an effect that happened first in front of the effects of what follows.\<close>

definition after_output :: "effect \<Rightarrow> callback_result \<Rightarrow> callback_result" where
  "after_output out r =
     (case r of Inl e \<Rightarrow> Inl e | Inr (a, s, outs) \<Rightarrow> Inr (a, s, out # outs))"

text \<open>
  What the first callback of \<^verbatim>\<open>Lieutenant::Decide\<close> stores for an accepted message: in
  the first round the order and the message, in a later round the path as well.
\<close>

definition accept_first :: "Lieutenant \<Rightarrow> Message \<Rightarrow> Lieutenant" where
  "accept_first s msg =
     s\<lparr>orders_seen_' := insert (order msg) (orders_seen_' s),
       msgs_this_round_' := insert msg (msgs_this_round_' s)\<rparr>"

definition accept :: "Lieutenant \<Rightarrow> Message \<Rightarrow> Lieutenant" where
  "accept s msg =
     s\<lparr>ids_this_round_' := insert (ids msg) (ids_this_round_' s),
       msgs_this_round_' := insert msg (msgs_this_round_' s),
       orders_seen_' := insert (order msg) (orders_seen_' s)\<rparr>"

text \<open>The first callback \<^verbatim>\<open>Lieutenant::Decide\<close> gives to \<^verbatim>\<open>Listen\<close>.\<close>

definition on_message :: "Lieutenant \<Rightarrow> Address \<Rightarrow> byte list \<Rightarrow> callback_result" where
  "on_message s from_addr buf =
     (case ByzantineMsgFromBuf buf of
        None \<Rightarrow> Inr (ContinueUnlessTimeout s, s, [])
      | Some msg \<Rightarrow>
          (case ValidMessage s msg from_addr of
             Inl e \<Rightarrow> Inl e
           | Inr False \<Rightarrow> Inr (ContinueUnlessTimeout s, s, [])
           | Inr True \<Rightarrow>
               after_output (AckSent from_addr (round_' s))
                 (if FirstRound s then
                    (if card (orders_seen_' s) = 0
                     then MoveToNewRoundOrStop (accept_first s msg)
                     else Inr (ContinueUnlessTimeout s, s, []))
                  else
                    (if ids msg \<notin> ids_this_round_' s then
                       (if RoundComplete (accept s msg)
                        then MoveToNewRoundOrStop (accept s msg)
                        else Inr (ContinueUnlessTimeout (accept s msg), accept s msg, []))
                     else Inr (ContinueUnlessTimeout s, s, [])))))"

text \<open>
  What the network hands to the listen loop, one event after the other: a datagram with
  the address it came from, or an idle timeout. And what the loop has come to after
  some events: it has returned, it is still blocked, or a callback has thrown.
\<close>

datatype event =
  Datagram Address "byte list"
| IdleTimeout

datatype listen_result =
  Stopped Lieutenant "effect list"
| Listening Lieutenant "effect list"
| Raised error

fun emitted_before :: "effect list \<Rightarrow> listen_result \<Rightarrow> listen_result" where
  "emitted_before outs (Stopped s outs') = Stopped s (outs @ outs')"
| "emitted_before outs (Listening s outs') = Listening s (outs @ outs')"
| "emitted_before outs (Raised e) = Raised e"

fun callback :: "Lieutenant \<Rightarrow> event \<Rightarrow> callback_result" where
  "callback s (Datagram from_addr buf) = on_message s from_addr buf"
| "callback s IdleTimeout = HandleRoundTimeout s"

text \<open>
  Modelled from the spec: \<^verbatim>\<open>udp::Server::Listen\<close>, which is absent. The spec's contract: it
  blocks the caller, gives each received datagram to \<^verbatim>\<open>on_message\<close> and each idle
  timeout to \<^verbatim>\<open>on_timeout\<close>, and returns when a callback answers Stop. The events are
  the input; when they run out before a callback has answered Stop, the loop is still
  blocked.
\<close>

fun Listen :: "Lieutenant \<Rightarrow> event list \<Rightarrow> listen_result" where
  "Listen s [] = Listening s []"
| "Listen s (ev # evs) =
     (case callback s ev of
        Inl e \<Rightarrow> Raised e
      | Inr (Stop, s', outs) \<Rightarrow> Stopped s' outs
      | Inr (Continue, s', outs) \<Rightarrow> emitted_before outs (Listen s' evs))"

text \<open>
  \<^verbatim>\<open>Lieutenant::Decide\<close>: \<open>None\<close> while \<^verbatim>\<open>Listen\<close> has not returned, the exception when
  a callback threw, and otherwise the decision on the state \<^verbatim>\<open>Listen\<close> left.
\<close>

definition Lieutenant_Decide :: "Lieutenant \<Rightarrow> event list \<Rightarrow> (error + Order) option" where
  "Lieutenant_Decide s evs =
     (case Listen s evs of
        Stopped s' outs \<Rightarrow> Some (Inr (DecideOrder s'))
      | Listening s' outs \<Rightarrow> None
      | Raised e \<Rightarrow> Some (Inl e))"

text \<open>
  \<^verbatim>\<open>Commander::Decide\<close>: the pairs \<open>(pid, msg)\<close> for which a sender thread runs
  \<^verbatim>\<open>SendMessage(clients_[processes_[pid]], msg)\<close>, and the order returned.
\<close>

definition Commander_Decide :: "Commander \<Rightarrow> (nat \<times> Message) list \<times> Order" where
  "Commander_Decide c =
     (map (\<lambda>pid. (pid, \<lparr>round = round_' c, order = order_' c, ids = [0]\<rparr>))
        [1 ..< length (processes_' c)],
      order_' c)"

text \<open>A Lieutenant as it starts: round 0, nothing seen, nothing retained.\<close>

definition new_Lieutenant :: "u32 \<Rightarrow> Address list \<Rightarrow> u32 \<Rightarrow> Lieutenant" where
  "new_Lieutenant i ps m =
     \<lparr>id_' = i, processes_' = ps, round_' = 0, faulty_' = m,
      orders_seen_' = {}, msgs_this_round_' = {}, ids_this_round_' = {}\<rparr>"

section \<open>The validator in the spec's words\<close>

text \<open>
  The seven clauses of the spec's message validator, in its order: the round is the
  current round; the path has \<open>round + 1\<close> entries; it starts at the Commander; every
  entry is a process id; no entry is the own id; the entries are pairwise distinct; the
  host of the last entry is the host the datagram came from.
\<close>

definition spec_valid :: "Lieutenant \<Rightarrow> Message \<Rightarrow> Address \<Rightarrow> bool" where
  "spec_valid s msg from_addr \<longleftrightarrow>
     round msg = round_' s \<and>
     length (ids msg) = unat (round msg) + 1 \<and>
     ids msg ! 0 = 0 \<and>
     (\<forall>i \<in> set (ids msg). unat i < length (processes_' s)) \<and>
     id_' s \<notin> set (ids msg) \<and>
     distinct (ids msg) \<and>
     hostname (processes_' s ! unat (last (ids msg))) = hostname from_addr"

section \<open>A run with four processes\<close>

text \<open>The participant table of the spec's scenarios: \<open>n = 4\<close>, one host per process.\<close>

definition hosts4 :: "Address list" where
  "hosts4 = [\<lparr>hostname = ''h0'', port = 5000\<rparr>, \<lparr>hostname = ''h1'', port = 5000\<rparr>,
             \<lparr>hostname = ''h2'', port = 5000\<rparr>, \<lparr>hostname = ''h3'', port = 5000\<rparr>]"

text \<open>
  Lieutenant 1 of that run with \<open>m = 1\<close>, in round 1, after it has accepted the relay of
  process 2.
\<close>

definition lieutenant1_round1 :: Lieutenant where
  "lieutenant1_round1 =
     \<lparr>id_' = 1, processes_' = hosts4, round_' = 1, faulty_' = 1,
      orders_seen_' = {ATTACK},
      msgs_this_round_' = {\<lparr>round = 1, order = ATTACK, ids = [0, 2]\<rparr>},
      ids_this_round_' = {[0, 2]}\<rparr>"

section \<open>The Round State invariants\<close>

text \<open>
  The retained messages and the retained paths correspond one to one: the path of a
  message is a bijection between the two sets.
\<close>

definition path_bijection :: "Lieutenant \<Rightarrow> bool" where
  "path_bijection s \<longleftrightarrow>
     finite (msgs_this_round_' s) \<and> bij_betw ids (msgs_this_round_' s) (ids_this_round_' s)"

text \<open>
  The invariants in the spec's words: every retained message is of the current round,
  there are as many retained paths as retained messages, and at round 0 at most one
  message is retained.
\<close>

definition spec_round_state_inv :: "Lieutenant \<Rightarrow> bool" where
  "spec_round_state_inv s \<longleftrightarrow>
     (\<forall>m \<in> msgs_this_round_' s. round m = round_' s) \<and>
     card (ids_this_round_' s) = card (msgs_this_round_' s) \<and>
     (round_' s = 0 \<longrightarrow> card (msgs_this_round_' s) \<le> 1)"

text \<open>
  What holds while the loop listens, and what holds when it has stopped: in round 0 the
  loop listens with nothing retained, and it stops there with one message retained and
  no path recorded.
\<close>

definition listening_inv :: "Lieutenant \<Rightarrow> bool" where
  "listening_inv s \<longleftrightarrow>
     (\<forall>m \<in> msgs_this_round_' s. round m = round_' s) \<and>
     path_bijection s \<and>
     (round_' s = 0 \<longrightarrow> msgs_this_round_' s = {})"

definition stopped_inv :: "Lieutenant \<Rightarrow> bool" where
  "stopped_inv s \<longleftrightarrow>
     (\<forall>m \<in> msgs_this_round_' s. round m = round_' s) \<and>
     (round_' s = 0 \<longrightarrow> card (msgs_this_round_' s) \<le> 1) \<and>
     (round_' s \<noteq> 0 \<longrightarrow> path_bijection s \<and> card (ids_this_round_' s) = card (msgs_this_round_' s)) \<and>
     (round_' s = 0 \<longrightarrow> card (msgs_this_round_' s) = 1 \<and> ids_this_round_' s = {})"

text \<open>
  The order the Commander of the four-process run sends, and the addresses its
  datagrams and those of the Lieutenants come from (the sending ports are ephemeral).
\<close>

definition relay_from_commander :: Message where
  "relay_from_commander = \<lparr>round = 0, order = ATTACK, ids = [0]\<rparr>"

definition from_p0 :: Address where "from_p0 = \<lparr>hostname = ''h0'', port = 40000\<rparr>"
definition from_p1 :: Address where "from_p1 = \<lparr>hostname = ''h1'', port = 40001\<rparr>"
definition from_p2 :: Address where "from_p2 = \<lparr>hostname = ''h2'', port = 40002\<rparr>"
definition from_p3 :: Address where "from_p3 = \<lparr>hostname = ''h3'', port = 40003\<rparr>"

section \<open>Runs of the four processes\<close>

text \<open>The effects of a run of the listen loop.\<close>

fun effects_of :: "listen_result \<Rightarrow> effect list" where
  "effects_of (Stopped s outs) = outs"
| "effects_of (Listening s outs) = outs"
| "effects_of (Raised e) = []"

text \<open>
  The four-process run with \<open>m = 1\<close> (\<open>n = 3m + 1\<close>, two rounds). The Commander proposes
  ATTACK. In round 1 process \<open>p\<close> relays the order \<open>v\<close> it passes on with the path
  \<open>[0, p]\<close>. \<open>events_p1\<close> and \<open>events_p2\<close> are what Lieutenants 1 and 2 receive when
  every process follows the protocol; in \<open>events_p1_forged\<close> process 3 tells Lieutenant 1
  that the Commander ordered RETREAT.
\<close>

definition commander4 :: Commander where
  "commander4 = \<lparr>id_' = 0, processes_' = hosts4, round_' = 0, faulty_' = 1, order_' = ATTACK\<rparr>"

definition relay_via :: "u32 \<Rightarrow> Order \<Rightarrow> Message" where
  "relay_via p v = \<lparr>round = 1, order = v, ids = [0, p]\<rparr>"

definition events_p1_forged :: "event list" where
  "events_p1_forged =
     [Datagram from_p0 (SendMessage 0 relay_from_commander),
      Datagram from_p2 (SendMessage 0 (relay_via 2 ATTACK)),
      Datagram from_p3 (SendMessage 0 (relay_via 3 RETREAT))]"

definition events_p1 :: "event list" where
  "events_p1 =
     [Datagram from_p0 (SendMessage 0 relay_from_commander),
      Datagram from_p2 (SendMessage 0 (relay_via 2 ATTACK)),
      Datagram from_p3 (SendMessage 0 (relay_via 3 ATTACK))]"

definition events_p2 :: "event list" where
  "events_p2 =
     [Datagram from_p0 (SendMessage 0 relay_from_commander),
      Datagram from_p1 (SendMessage 0 (relay_via 1 ATTACK)),
      Datagram from_p3 (SendMessage 0 (relay_via 3 ATTACK))]"

text \<open>
  Three more runs of the four processes with \<open>m = 1\<close>. In \<open>events_p1_split\<close> and
  \<open>events_p2_split\<close> the Commander is the Byzantine process: it sends ATTACK to
  Lieutenant 1 and RETREAT to Lieutenants 2 and 3, and the Lieutenants relay what they
  received. In \<open>events_p1_retreat_forged\<close> a correct Commander proposes RETREAT and the
  Byzantine process 3 tells Lieutenant 1 that the Commander ordered ATTACK.
\<close>

definition relay_retreat_from_commander :: Message where
  "relay_retreat_from_commander = \<lparr>round = 0, order = RETREAT, ids = [0]\<rparr>"

definition commander4_retreat :: Commander where
  "commander4_retreat =
     \<lparr>id_' = 0, processes_' = hosts4, round_' = 0, faulty_' = 1, order_' = RETREAT\<rparr>"

definition events_p1_split :: "event list" where
  "events_p1_split =
     [Datagram from_p0 (SendMessage 0 relay_from_commander),
      Datagram from_p2 (SendMessage 0 (relay_via 2 RETREAT)),
      Datagram from_p3 (SendMessage 0 (relay_via 3 RETREAT))]"

definition events_p2_split :: "event list" where
  "events_p2_split =
     [Datagram from_p0 (SendMessage 0 relay_retreat_from_commander),
      Datagram from_p1 (SendMessage 0 (relay_via 1 ATTACK)),
      Datagram from_p3 (SendMessage 0 (relay_via 3 RETREAT))]"

definition events_p1_retreat_forged :: "event list" where
  "events_p1_retreat_forged =
     [Datagram from_p0 (SendMessage 0 relay_retreat_from_commander),
      Datagram from_p2 (SendMessage 0 (relay_via 2 RETREAT)),
      Datagram from_p3 (SendMessage 0 (relay_via 3 ATTACK))]"

text \<open>
  A Lieutenant among 200 processes in round 66 (with \<open>m = 66\<close>, so \<open>n \<ge> 3m + 1\<close>), at
  the start of the round: no path has been retained yet.
\<close>

definition lieutenant_round66 :: Lieutenant where
  "lieutenant_round66 =
     \<lparr>id_' = 1, processes_' = replicate 200 \<lparr>hostname = ''h'', port = 5000\<rparr>,
      round_' = 66, faulty_' = 66,
      orders_seen_' = {ATTACK}, msgs_this_round_' = {}, ids_this_round_' = {}\<rparr>"

section \<open>The relays a Lieutenant stores\<close>

text \<open>
  The message the callback stores for an event, if it stores one: the datagram decodes,
  \<^verbatim>\<open>ValidMessage\<close> returns true, and in the first round no order has been seen yet, in a
  later round the path is new. These are the tests of the first callback of
  \<^verbatim>\<open>Lieutenant::Decide\<close> in front of its \<^verbatim>\<open>insert\<close> calls.
\<close>

fun stores :: "Lieutenant \<Rightarrow> event \<Rightarrow> Message option" where
  "stores s (Datagram from_addr buf) =
     (case ByzantineMsgFromBuf buf of
        None \<Rightarrow> None
      | Some msg \<Rightarrow>
          if ValidMessage s msg from_addr = Inr True \<and>
             (if FirstRound s then card (orders_seen_' s) = 0
              else ids msg \<notin> ids_this_round_' s)
          then Some msg else None)"
| "stores s IdleTimeout = None"

text \<open>The relays stored in the course of the listen loop, in the order of their arrival.\<close>

fun stored :: "Lieutenant \<Rightarrow> event list \<Rightarrow> Message list" where
  "stored s [] = []"
| "stored s (ev # evs) =
     (case callback s ev of
        Inl e \<Rightarrow> []
      | Inr (Stop, s', outs) \<Rightarrow> (case stores s ev of None \<Rightarrow> [] | Some msg \<Rightarrow> [msg])
      | Inr (Continue, s', outs) \<Rightarrow>
          (case stores s ev of None \<Rightarrow> [] | Some msg \<Rightarrow> [msg]) @ stored s' evs)"

text \<open>
  A correct Commander sends the one relay \<open>(round 0, v, [0])\<close>: every round-0 relay that
  comes from the host of process 0 carries the order \<open>v\<close>.
\<close>

fun commander_sends :: "Order \<Rightarrow> Address list \<Rightarrow> event \<Rightarrow> bool" where
  "commander_sends v ps (Datagram from_addr buf) =
     (case ByzantineMsgFromBuf buf of
        None \<Rightarrow> True
      | Some msg \<Rightarrow> hostname from_addr = hostname (ps ! 0) \<and> round msg = 0 \<longrightarrow> order msg = v)"
| "commander_sends v ps IdleTimeout = True"

text \<open>The effect spawns no relay, or only relays whose order is one of \<open>orders\<close>.\<close>

fun spawns_among :: "Order set \<Rightarrow> effect \<Rightarrow> bool" where
  "spawns_among orders (AckSent from_addr r) = True"
| "spawns_among orders (RelaysSpawned relays) = (\<forall>(pid, msg) \<in> relays. order msg \<in> orders)"

text \<open>
  What holds of the state while the loop listens, beyond the Round State invariants: an
  order has been seen once round 0 is left, the order of every retained message has been
  seen, and the round is not past the last round.
\<close>

definition run_inv :: "Lieutenant \<Rightarrow> bool" where
  "run_inv s \<longleftrightarrow>
     listening_inv s \<and>
     (orders_seen_' s = {} \<longrightarrow> round_' s = 0) \<and>
     order ` msgs_this_round_' s \<subseteq> orders_seen_' s \<and>
     unat (round_' s) \<le> unat (faulty_' s)"

section \<open>The codec\<close>

lemma u32_of_bytes_split:
  "u32_of_bytes (ucast (drop_bit 24 w)) (ucast (drop_bit 16 w)) (ucast (drop_bit 8 w)) (ucast w) = w"
proof (rule bit_word_eqI)
  fix n assume n: "n < LENGTH(32)"
  consider "n < 8" | "8 \<le> n" "n < 16" | "16 \<le> n" "n < 24" | "24 \<le> n" by linarith
  then show "bit (u32_of_bytes (ucast (drop_bit 24 w)) (ucast (drop_bit 16 w))
                  (ucast (drop_bit 8 w)) (ucast w)) n = bit w n"
    using n unfolding u32_of_bytes_def by cases (auto simp: bit_simps)
qed

lemma length_htonl_bytes: "length (htonl_bytes w) = 4"
  by (simp add: htonl_bytes_def)

lemma ntohl_at_htonl_bytes:
  "length pre = off \<Longrightarrow> ntohl_at (pre @ htonl_bytes w @ rest) off = w"
  by (simp add: ntohl_at_def htonl_bytes_def nth_append u32_of_bytes_split)

lemma length_concat_htonl: "length (concat (map htonl_bytes xs)) = 4 * length xs"
  by (induction xs) (simp_all add: length_htonl_bytes)

lemma ntohl_at_concat:
  "i < length xs \<Longrightarrow> length pre = off \<Longrightarrow>
   ntohl_at (pre @ concat (map htonl_bytes xs)) (off + 4 * i) = xs ! i"
proof (induction xs arbitrary: i pre off)
  case Nil
  then show ?case by simp
next
  case (Cons x xs)
  show ?case
  proof (cases i)
    case 0
    with Cons.prems show ?thesis
      using ntohl_at_htonl_bytes [of pre off x "concat (map htonl_bytes xs)"] by simp
  next
    case (Suc j)
    with Cons.prems have j: "j < length xs" by simp
    have "ntohl_at ((pre @ htonl_bytes x) @ concat (map htonl_bytes xs)) ((off + 4) + 4 * j) = xs ! j"
      using Cons.IH [OF j, of "pre @ htonl_bytes x" "off + 4"] Cons.prems
      by (simp add: length_htonl_bytes)
    with Suc show ?thesis by (simp add: add.assoc)
  qed
qed

lemma length_SendMessage:
  "length (SendMessage k msg) = 16 + 4 * length (ids msg)"
  by (simp add: SendMessage_def Let_def length_htonl_bytes length_concat_htonl
      sizeof_ByzantineMessage_def sizeof_uint32_t_def)

lemma SendMessage_split:
  "SendMessage k msg =
     (htonl_bytes k @ htonl_bytes (of_nat (16 + 4 * length (ids msg)))) @ htonl_bytes (round msg) @
       (htonl_bytes (order msg) @ concat (map htonl_bytes (ids msg)))"
  by (simp add: SendMessage_def Let_def sizeof_ByzantineMessage_def sizeof_uint32_t_def)

lemma SendMessage_split2:
  "SendMessage k msg =
     (htonl_bytes k @ htonl_bytes (of_nat (16 + 4 * length (ids msg))) @ htonl_bytes (round msg)) @
       htonl_bytes (order msg) @ concat (map htonl_bytes (ids msg))"
  by (simp add: SendMessage_def Let_def sizeof_ByzantineMessage_def sizeof_uint32_t_def)

lemma SendMessage_split3:
  "SendMessage k msg =
     (htonl_bytes k @ htonl_bytes (of_nat (16 + 4 * length (ids msg))) @ htonl_bytes (round msg) @
       htonl_bytes (order msg)) @ concat (map htonl_bytes (ids msg))"
  by (simp add: SendMessage_def Let_def sizeof_ByzantineMessage_def sizeof_uint32_t_def)

lemma round_SendMessage: "ntohl_at (SendMessage k msg) 8 = round msg"
  unfolding SendMessage_split by (rule ntohl_at_htonl_bytes) (simp add: length_htonl_bytes)

lemma order_SendMessage: "ntohl_at (SendMessage k msg) 12 = order msg"
  unfolding SendMessage_split2 by (rule ntohl_at_htonl_bytes) (simp add: length_htonl_bytes)

lemma ids_SendMessage:
  "map (\<lambda>i. ntohl_at (SendMessage k msg) (16 + 4 * i)) [0 ..< length (ids msg)] = ids msg"
proof (rule nth_equalityI)
  show "length (map (\<lambda>i. ntohl_at (SendMessage k msg) (16 + 4 * i)) [0 ..< length (ids msg)]) = length (ids msg)"
    by simp
next
  fix i assume "i < length (map (\<lambda>i. ntohl_at (SendMessage k msg) (16 + 4 * i)) [0 ..< length (ids msg)])"
  then have i: "i < length (ids msg)" by simp
  have "ntohl_at (SendMessage k msg) (16 + 4 * i) = ids msg ! i"
    unfolding SendMessage_split3
    by (rule ntohl_at_concat [OF i]) (simp add: length_htonl_bytes)
  with i show "map (\<lambda>i. ntohl_at (SendMessage k msg) (16 + 4 * i)) [0 ..< length (ids msg)] ! i = ids msg ! i"
    by simp
qed

lemma ByzantineMsgFromBuf_SendMessage:
  "ByzantineMsgFromBuf (SendMessage k msg) = Some (msg :: Message)"
  by (simp add: ByzantineMsgFromBuf_def Let_def length_SendMessage round_SendMessage
      order_SendMessage ids_SendMessage sizeof_ByzantineMessage_def sizeof_uint32_t_def)

lemma length_SendAckForRound: "length (SendAckForRound k r) = 12"
  by (simp add: SendAckForRound_def length_htonl_bytes)

lemma RoundOfAck_SendAckForRound: "RoundOfAck (SendAckForRound k r) = Some r"
proof -
  have "ntohl_at ((htonl_bytes k @ htonl_bytes (of_nat sizeof_Ack)) @ htonl_bytes r @ []) 8 = r"
    by (rule ntohl_at_htonl_bytes) (simp add: length_htonl_bytes)
  then have "ntohl_at (SendAckForRound k r) 8 = r"
    by (simp add: SendAckForRound_def)
  then show ?thesis
    by (simp add: RoundOfAck_def length_SendAckForRound sizeof_Ack_def)
qed

lemma ntohl_at_header_irrelevant:
  assumes "length hdr = 8" and "8 \<le> off" and "off + 4 \<le> length buf"
  shows "ntohl_at (hdr @ drop 8 buf) off = ntohl_at buf off"
proof -
  have "(hdr @ drop 8 buf) ! j = buf ! j" if "8 \<le> j" "j < length buf" for j
    using that assms(1) by (simp add: nth_append)
  then show ?thesis
    using assms(2,3) by (simp add: ntohl_at_def)
qed

text \<open>
  C6, as the code has it. \<^verbatim>\<open>ByzantineMsgFromBuf\<close> gives nothing exactly when the buffer is
  shorter than the sixteen-byte header. Every longer buffer decodes, to a message with
  \<open>(n - 16) div 4\<close> ids: when \<open>(n - 16) mod 4 \<noteq> 0\<close> the one to three bytes after the
  last whole id are left unread and the buffer is not rejected. \<^verbatim>\<open>RoundOfAck\<close> gives
  nothing exactly when the buffer is not twelve bytes long.
\<close>

theorem C6_decoders_check_the_length:
  "map_option (\<lambda>msg. length (ids msg)) (ByzantineMsgFromBuf buf) =
     (if length buf < sizeof_ByzantineMessage then None
      else Some ((length buf - sizeof_ByzantineMessage) div sizeof_uint32_t)) \<and>
   (RoundOfAck buf = None \<longleftrightarrow> length buf \<noteq> sizeof_Ack)"
  by (simp add: ByzantineMsgFromBuf_def RoundOfAck_def Let_def)

text \<open>
  C6 as stated fails: the 21-byte buffer made of the relay \<open>(round 0, ATTACK, [0])\<close>
  and one more byte has \<open>(n - 16) mod 4 = 1\<close>, and it decodes to that relay.
\<close>

theorem C6_trailing_byte_is_accepted:
  "ByzantineMsgFromBuf (SendMessage 0 \<lparr>round = 0, order = ATTACK, ids = [0]\<rparr> @ [255]) =
     Some \<lparr>round = 0, order = ATTACK, ids = [0]\<rparr> \<and>
   (length (SendMessage 0 \<lparr>round = 0, order = ATTACK, ids = [0]\<rparr> @ [255])
      - sizeof_ByzantineMessage) mod 4 = 1"
  by (simp add: ByzantineMsgFromBuf_def SendMessage_def Let_def sizeof_ByzantineMessage_def
      sizeof_uint32_t_def htonl_bytes_def ntohl_at_def u32_of_bytes_def ATTACK_def)

text \<open>
  C7, as the code has it. The relay \<open>(round 2, ATTACK, [0, 3, 1])\<close> is encoded by
  \<^verbatim>\<open>SendMessage\<close> to 28 bytes, which is \<open>16 + 4 * (round + 1)\<close>, and decodes back to the
  same message; the buffer of \<^verbatim>\<open>SendAckForRound\<close> for round 2 has 12 bytes. The length
  of every encoded relay is 16 plus four bytes for each id.
\<close>

theorem C7_scenario_S5_sizes:
  "length (SendMessage k \<lparr>round = 2, order = ATTACK, ids = [0, 3, 1]\<rparr>) = 28 \<and>
   ByzantineMsgFromBuf (SendMessage k \<lparr>round = 2, order = ATTACK, ids = [0, 3, 1]\<rparr>) =
     Some \<lparr>round = 2, order = ATTACK, ids = [0, 3, 1]\<rparr> \<and>
   length (SendAckForRound k' 2) = 12 \<and>
   length (SendMessage k msg) = 16 + 4 * length (ids msg)"
  by (simp add: length_SendMessage ByzantineMsgFromBuf_SendMessage length_SendAckForRound)

text \<open>C7 as stated fails: the encoded relay does not have 24 bytes.\<close>

theorem C7_relay_is_not_24_bytes:
  "length (SendMessage 0 \<lparr>round = 2, order = ATTACK, ids = [0, 3, 1]\<rparr>) \<noteq> 24"
  by (simp add: SendMessage_def Let_def sizeof_ByzantineMessage_def
      sizeof_uint32_t_def htonl_bytes_def)

text \<open>
  C8: decoding the buffer \<^verbatim>\<open>SendMessage\<close> builds gives back the round, the order and the
  ids of the message, for every message; \<^verbatim>\<open>RoundOfAck\<close> on the buffer of
  \<^verbatim>\<open>SendAckForRound\<close> gives back the round.
\<close>

theorem C8_codec_round_trip:
  "ByzantineMsgFromBuf (SendMessage k msg) = Some (msg :: Message) \<and>
   RoundOfAck (SendAckForRound k' r) = Some r"
  by (simp add: ByzantineMsgFromBuf_SendMessage RoundOfAck_SendAckForRound)

text \<open>
  C10: the decoders look at the length of the buffer and at nothing of its first eight
  bytes, the type tag and the size field. Every buffer of at least sixteen bytes
  decodes to a relay, every buffer of exactly twelve bytes gives an Ack round, and both
  results stay the same when the first eight bytes are replaced by any others.
\<close>

theorem C10_decoding_reads_only_the_length:
  assumes "length hdr = 8"
  shows "(sizeof_ByzantineMessage \<le> length buf \<longrightarrow>
            (\<exists>msg. ByzantineMsgFromBuf buf = Some msg) \<and>
            ByzantineMsgFromBuf (hdr @ drop 8 buf) = ByzantineMsgFromBuf buf) \<and>
         (length buf = sizeof_Ack \<longrightarrow>
            (\<exists>r. RoundOfAck buf = Some r) \<and>
            RoundOfAck (hdr @ drop 8 buf) = RoundOfAck buf) \<and>
         (ByzantineMsgFromBuf buf = None \<longleftrightarrow> length buf < sizeof_ByzantineMessage) \<and>
         (RoundOfAck buf = None \<longleftrightarrow> length buf \<noteq> sizeof_Ack)"
proof (intro conjI impI)
  assume n: "sizeof_ByzantineMessage \<le> length buf"
  then show "\<exists>msg. ByzantineMsgFromBuf buf = Some msg"
    by (simp add: ByzantineMsgFromBuf_def Let_def)
  have len: "length (hdr @ drop 8 buf) = length buf"
    using n assms by (simp add: sizeof_ByzantineMessage_def)
  have "ntohl_at (hdr @ drop 8 buf) (16 + 4 * i) = ntohl_at buf (16 + 4 * i)"
    if "i < (length buf - 16) div 4" for i
    using that assms by (intro ntohl_at_header_irrelevant) auto
  then have "map (\<lambda>i. ntohl_at (hdr @ drop 8 buf) (16 + 4 * i)) [0 ..< (length buf - 16) div 4] =
             map (\<lambda>i. ntohl_at buf (16 + 4 * i)) [0 ..< (length buf - 16) div 4]"
    by simp
  moreover have "ntohl_at (hdr @ drop 8 buf) 8 = ntohl_at buf 8"
    using n assms by (intro ntohl_at_header_irrelevant) (auto simp: sizeof_ByzantineMessage_def)
  moreover have "ntohl_at (hdr @ drop 8 buf) 12 = ntohl_at buf 12"
    using n assms by (intro ntohl_at_header_irrelevant) (auto simp: sizeof_ByzantineMessage_def)
  ultimately show "ByzantineMsgFromBuf (hdr @ drop 8 buf) = ByzantineMsgFromBuf buf"
    unfolding ByzantineMsgFromBuf_def Let_def len
    by (simp add: sizeof_ByzantineMessage_def sizeof_uint32_t_def)
next
  assume n: "length buf = sizeof_Ack"
  then show "\<exists>r. RoundOfAck buf = Some r"
    by (simp add: RoundOfAck_def)
  have len: "length (hdr @ drop 8 buf) = length buf"
    using n assms by (simp add: sizeof_Ack_def)
  have "ntohl_at (hdr @ drop 8 buf) 8 = ntohl_at buf 8"
    using n assms by (intro ntohl_at_header_irrelevant) (auto simp: sizeof_Ack_def)
  then show "RoundOfAck (hdr @ drop 8 buf) = RoundOfAck buf"
    unfolding RoundOfAck_def len by simp
next
  show "ByzantineMsgFromBuf buf = None \<longleftrightarrow> length buf < sizeof_ByzantineMessage"
    by (simp add: ByzantineMsgFromBuf_def Let_def)
  show "RoundOfAck buf = None \<longleftrightarrow> length buf \<noteq> sizeof_Ack"
    by (simp add: RoundOfAck_def)
qed

theorem C10_overwritten_header_witness:
  "ByzantineMsgFromBuf
     (replicate 8 255 @ drop 8 (SendMessage 1 \<lparr>round = 1, order = RETREAT, ids = [0, 2]\<rparr>)) =
     Some \<lparr>round = 1, order = RETREAT, ids = [0, 2]\<rparr> \<and>
   RoundOfAck (replicate 8 255 @ drop 8 (SendAckForRound 2 1)) = Some 1"
  using C10_decoding_reads_only_the_length
          [of "replicate 8 255" "SendMessage 1 \<lparr>round = 1, order = RETREAT, ids = [0, 2]\<rparr>"]
        C10_decoding_reads_only_the_length [of "replicate 8 255" "SendAckForRound 2 1"]
  by (simp add: length_SendMessage length_SendAckForRound ByzantineMsgFromBuf_SendMessage
      RoundOfAck_SendAckForRound sizeof_ByzantineMessage_def sizeof_Ack_def)

section \<open>The decision and the validator\<close>

text \<open>
  C2: \<^verbatim>\<open>DecideOrder\<close> returns ATTACK exactly when \<^verbatim>\<open>orders_seen_\<close> is the set \<open>{ATTACK}\<close>,
  and RETREAT in every other case, among them the empty set and every set that contains
  RETREAT.
\<close>

theorem C2_DecideOrder_attack_iff_only_attack_seen:
  "DecideOrder s = (if orders_seen_' s = {ATTACK} then ATTACK else RETREAT) \<and>
   (DecideOrder s = ATTACK \<longleftrightarrow> orders_seen_' s = {ATTACK}) \<and>
   DecideOrder (s\<lparr>orders_seen_' := {}\<rparr>) = RETREAT \<and>
   DecideOrder (s\<lparr>orders_seen_' := insert RETREAT S\<rparr>) = RETREAT"
proof -
  have "card (orders_seen_' s) = 1 \<and> ATTACK \<in> orders_seen_' s \<longleftrightarrow> orders_seen_' s = {ATTACK}"
    by (auto simp: card_1_singleton_iff)
  moreover have "ATTACK \<noteq> RETREAT"
    by (simp add: ATTACK_def RETREAT_def)
  moreover have "\<not> (card (insert RETREAT S) = 1 \<and> ATTACK \<in> insert RETREAT S)"
    using \<open>ATTACK \<noteq> RETREAT\<close> by (auto simp: card_1_singleton_iff)
  ultimately show ?thesis
    by (simp add: DecideOrder_def)
qed

lemma card_set_less_length: "card (set xs) < length xs \<longleftrightarrow> \<not> distinct xs"
  using card_length [of xs] distinct_card [of xs] card_distinct [of xs] by force

lemma unat_plus_one: "r \<noteq> - 1 \<Longrightarrow> unat (r + 1) = unat r + 1" for r :: u32
  by (metis Suc_eq_plus1 add.commute add_eq_0_iff2 unatSuc)

lemma checks_in_loop:
  "(\<exists>i \<in> set xs. unat i \<ge> n \<or> i = own) \<longleftrightarrow>
     \<not> ((\<forall>i \<in> set xs. unat i < n) \<and> own \<notin> set xs)" for xs :: "u32 list"
  by (auto simp: not_less)

lemma ValidMessage_no_wrap:
  assumes "round msg \<noteq> - 1"
  shows "ValidMessage s msg from_addr = Inr (spec_valid s msg from_addr)"
proof (cases "round msg = round_' s \<and> length (ids msg) = unat (round msg) + 1")
  case False
  then show ?thesis
    using assms unat_plus_one [OF assms] by (auto simp: ValidMessage_def spec_valid_def)
next
  case True
  then have ne: "ids msg \<noteq> []" by auto
  have len: "unat (round msg + 1) = length (ids msg)"
    using True unat_plus_one [OF assms] by simp
  show ?thesis
    unfolding ValidMessage_def spec_valid_def checks_in_loop card_set_less_length
    using True ne len by simp
qed

lemma distinct_path_length:
  fixes xs :: "u32 list"
  assumes "distinct xs" and "x \<notin> set xs"
  shows "length xs < 2 ^ 32"
proof -
  have "set xs \<subseteq> UNIV - {x}"
    using assms(2) by auto
  then have "card (set xs) \<le> card (UNIV - {x} :: u32 set)"
    by (intro card_mono) simp_all
  also have "\<dots> = 2 ^ 32 - 1"
    by (simp add: card_Diff_singleton card_word)
  finally show ?thesis
    using distinct_card [OF assms(1)] by simp
qed

lemma ValidMessage_wrap:
  assumes "round msg = - 1"
  shows "ValidMessage s msg from_addr \<noteq> Inr True"
    and "\<not> spec_valid s msg from_addr"
proof -
  show "ValidMessage s msg from_addr \<noteq> Inr True"
  proof (cases "round msg = round_' s")
    case True
    with assms have "round_' s = - 1" by simp
    with True show ?thesis by (simp add: ValidMessage_def)
  next
    case False
    then show ?thesis by (simp add: ValidMessage_def)
  qed
  have "unat (round msg) + 1 = 2 ^ 32"
    using assms by (simp add: unsigned_minus_1_eq_mask mask_eq_exp_minus_1)
  moreover have "length (ids msg) < 2 ^ 32" if "spec_valid s msg from_addr"
    using that distinct_path_length [of "ids msg" "id_' s"] by (simp add: spec_valid_def)
  ultimately show "\<not> spec_valid s msg from_addr"
    unfolding spec_valid_def by linarith
qed

text \<open>
  C3: \<^verbatim>\<open>ValidMessage\<close> returns true exactly when the seven clauses hold, for every
  message. Unless \<^verbatim>\<open>round_\<close> is the largest \<^verbatim>\<open>unsigned int\<close>, where \<^verbatim>\<open>msg.round + 1\<close> wraps, it
  returns the truth value of the seven clauses. The port of the sender is not looked at.
\<close>

theorem C3_ValidMessage_is_the_seven_clauses:
  "(ValidMessage s msg from_addr = Inr True \<longleftrightarrow> spec_valid s msg from_addr) \<and>
   (round_' s \<noteq> - 1 \<longrightarrow> ValidMessage s msg from_addr = Inr (spec_valid s msg from_addr)) \<and>
   ValidMessage s msg (from_addr\<lparr>port := p\<rparr>) = ValidMessage s msg from_addr"
proof (intro conjI impI)
  show "ValidMessage s msg from_addr = Inr True \<longleftrightarrow> spec_valid s msg from_addr"
    using ValidMessage_no_wrap [of msg s from_addr] ValidMessage_wrap [of msg s from_addr]
    by (cases "round msg = - 1") auto
  show "ValidMessage s msg from_addr = Inr (spec_valid s msg from_addr)" if "round_' s \<noteq> - 1"
  proof (cases "round msg = round_' s")
    case True
    with that show ?thesis by (simp add: ValidMessage_no_wrap)
  next
    case False
    then show ?thesis by (simp add: ValidMessage_def spec_valid_def)
  qed
  show "ValidMessage s msg (from_addr\<lparr>port := p\<rparr>) = ValidMessage s msg from_addr"
    by (simp add: ValidMessage_def)
qed

theorem C3_relay_from_p2_witness:
  "ValidMessage ((new_Lieutenant 1 hosts4 1)\<lparr>round_' := 1\<rparr>)
     \<lparr>round = 1, order = ATTACK, ids = [0, 2]\<rparr> \<lparr>hostname = ''h2'', port = 40000\<rparr> = Inr True \<and>
   ValidMessage ((new_Lieutenant 1 hosts4 1)\<lparr>round_' := 1\<rparr>)
     \<lparr>round = 1, order = ATTACK, ids = [0, 1]\<rparr> \<lparr>hostname = ''h1'', port = 40000\<rparr> = Inr False"
  using C3_ValidMessage_is_the_seven_clauses [where s = "(new_Lieutenant 1 hosts4 1)\<lparr>round_' := 1\<rparr>"
          and msg = "\<lparr>round = 1, order = ATTACK, ids = [0, 2]\<rparr>"
          and from_addr = "\<lparr>hostname = ''h2'', port = 40000\<rparr>"]
        C3_ValidMessage_is_the_seven_clauses [where s = "(new_Lieutenant 1 hosts4 1)\<lparr>round_' := 1\<rparr>"
          and msg = "\<lparr>round = 1, order = ATTACK, ids = [0, 1]\<rparr>"
          and from_addr = "\<lparr>hostname = ''h1'', port = 40000\<rparr>"]
  by (simp add: spec_valid_def new_Lieutenant_def hosts4_def)

section \<open>Round completion\<close>

lemma ucast_u32_size_t: "(ucast (k :: u32) :: size_t) = word_of_int (int (unat k))"
  by (simp add: word_of_int_uint)

lemma MessagesForRound_0: "MessagesForRound n 0 = 1"
  by (subst MessagesForRound.simps) simp

lemma MessagesForRound_rec:
  "k \<noteq> 0 \<Longrightarrow>
     MessagesForRound n k = (n - 1 - ucast k) * MessagesForRound n (k - 1)"
  by (subst MessagesForRound.simps) (simp only: if_False)

lemma MessagesForRound_spec_M:
  "MessagesForRound (word_of_int n) k = word_of_int (spec_M n (unat k))"
proof (induction "unat k" arbitrary: k)
  case 0
  then have "k = 0" by (simp add: unat_eq_0)
  then show ?case by (simp add: MessagesForRound_0)
next
  case (Suc j)
  then have k: "k \<noteq> 0" by auto
  have j: "j = unat (k - 1)"
    using Suc.hyps(2) k by (simp add: unat_minus_one)
  have IH: "MessagesForRound (word_of_int n) (k - 1) = word_of_int (spec_M n j)"
    using Suc.hyps(1) [OF j] unfolding j [symmetric] .
  have "word_of_int (spec_M n (Suc j)) =
          (word_of_int n - 1 - word_of_int (int (Suc j))) * (word_of_int (spec_M n j) :: size_t)"
    by (simp only: spec_M.simps wi_hom_syms word_of_int_1)
  also have "\<dots> = (word_of_int n - 1 - ucast k) * MessagesForRound (word_of_int n) (k - 1)"
    by (simp only: IH Suc.hyps(2) ucast_u32_size_t)
  also have "\<dots> = MessagesForRound (word_of_int n) k"
    using k by (rule MessagesForRound_rec [symmetric])
  finally show ?case
    by (simp only: Suc.hyps(2) [symmetric])
qed

lemma RoundComplete_spec_M:
  "RoundComplete s \<longleftrightarrow>
     int (card (ids_this_round_' s)) =
       spec_M (int (length (processes_' s))) (unat (round_' s)) mod 2 ^ 64"
proof -
  have "MessagesForRound (of_nat (length (processes_' s))) (round_' s) =
          word_of_int (spec_M (int (length (processes_' s))) (unat (round_' s)))"
    using MessagesForRound_spec_M [of "int (length (processes_' s))" "round_' s"] by simp
  then have "int (unat (MessagesForRound (of_nat (length (processes_' s))) (round_' s))) =
          spec_M (int (length (processes_' s))) (unat (round_' s)) mod 2 ^ 64"
    by (simp add: uint_word_of_int)
  then show ?thesis
    unfolding RoundComplete_def by (metis of_nat_eq_iff)
qed

lemma InitNewRound_no_throw:
  assumes "\<forall>m \<in> msgs_this_round_' s. round m = round_' s"
  shows "InitNewRound s =
           Inr ((IncrementRound s)\<lparr>msgs_this_round_' := {}, ids_this_round_' := {}\<rparr>,
                toSend (IncrementRound s))"
  using assms by (simp add: InitNewRound_def IncrementRound_def Let_def)

lemma MoveToNewRoundOrStop_no_throw:
  assumes "\<forall>m \<in> msgs_this_round_' s. round m = round_' s"
  shows "MoveToNewRoundOrStop s =
           (if LastRound s then Inr (Stop, s, [])
            else Inr (Continue,
                      (IncrementRound s)\<lparr>msgs_this_round_' := {}, ids_this_round_' := {}\<rparr>,
                      [RelaysSpawned (toSend (IncrementRound s))]))"
  by (simp add: MoveToNewRoundOrStop_def InitNewRound_no_throw [OF assms])

lemma ValidMessage_True_round:
  "ValidMessage s msg from_addr = Inr True \<Longrightarrow> round msg = round_' s"
  by (auto simp: ValidMessage_def split: if_splits)

lemma on_message_new_path:
  assumes "round_' s \<noteq> 0" and "ByzantineMsgFromBuf buf = Some msg"
    and "ValidMessage s msg from_addr = Inr True" and "ids msg \<notin> ids_this_round_' s"
  shows "on_message s from_addr buf =
           after_output (AckSent from_addr (round_' s))
             (if RoundComplete (accept s msg) then MoveToNewRoundOrStop (accept s msg)
              else Inr (Continue, accept s msg, []))"
  using assms by (simp add: on_message_def FirstRound_def ContinueUnlessTimeout_def)

text \<open>
  C4, as the code has it. \<^verbatim>\<open>MessagesForRound\<close> is the recurrence \<open>M(n, 0) = 1\<close>,
  \<open>M(n, k) = (n - 1 - k) * M(n, k - 1)\<close>, computed in \<^verbatim>\<open>size_t\<close>: its value is the
  integer \<open>M(n, k)\<close> modulo \<open>2^64\<close>, which is \<open>M(n, k)\<close> itself whenever that lies below
  \<open>2^64\<close>. A round is complete exactly when the number of paths in \<^verbatim>\<open>ids_this_round_\<close>
  is that value. In a round \<open>k \<ge> 1\<close>, when an accepted message with a new path brings
  the count to it, the callback advances the round at once, or answers \<^verbatim>\<open>Stop\<close> in the
  last round; otherwise it stores the message and goes on listening.
\<close>

theorem C4_round_complete_at_MessagesForRound:
  assumes "round_' s \<noteq> 0" and "ByzantineMsgFromBuf buf = Some msg"
    and "ValidMessage s msg from_addr = Inr True" and "ids msg \<notin> ids_this_round_' s"
    and "\<forall>m \<in> msgs_this_round_' s. round m = round_' s"
  shows "MessagesForRound n 0 = 1 \<and>
    (k \<noteq> 0 \<longrightarrow> MessagesForRound n k = (n - 1 - ucast k) * MessagesForRound n (k - 1)) \<and>
    (RoundComplete s \<longleftrightarrow>
       int (card (ids_this_round_' s)) =
         spec_M (int (length (processes_' s))) (unat (round_' s)) mod 2 ^ 64) \<and>
    (0 \<le> spec_M (int (length (processes_' s))) (unat (round_' s)) \<and>
     spec_M (int (length (processes_' s))) (unat (round_' s)) < 2 ^ 64 \<longrightarrow>
       (RoundComplete s \<longleftrightarrow>
          int (card (ids_this_round_' s)) =
            spec_M (int (length (processes_' s))) (unat (round_' s)))) \<and>
    on_message s from_addr buf =
      (if RoundComplete (accept s msg) then
         (if LastRound s then Inr (Stop, accept s msg, [AckSent from_addr (round_' s)])
          else Inr (Continue,
                    (accept s msg)\<lparr>round_' := round_' s + 1,
                                   msgs_this_round_' := {}, ids_this_round_' := {}\<rparr>,
                    [AckSent from_addr (round_' s),
                     RelaysSpawned (toSend (IncrementRound (accept s msg)))]))
       else Inr (Continue, accept s msg, [AckSent from_addr (round_' s)]))"
proof (intro conjI impI)
  show "MessagesForRound n 0 = 1"
    by (rule MessagesForRound_0)
  show "MessagesForRound n k = (n - 1 - ucast k) * MessagesForRound n (k - 1)" if "k \<noteq> 0"
    using that by (rule MessagesForRound_rec)
  show c: "RoundComplete s \<longleftrightarrow>
       int (card (ids_this_round_' s)) =
         spec_M (int (length (processes_' s))) (unat (round_' s)) mod 2 ^ 64"
    by (rule RoundComplete_spec_M)
  show "RoundComplete s \<longleftrightarrow>
          int (card (ids_this_round_' s)) =
            spec_M (int (length (processes_' s))) (unat (round_' s))"
    if "0 \<le> spec_M (int (length (processes_' s))) (unat (round_' s)) \<and>
        spec_M (int (length (processes_' s))) (unat (round_' s)) < 2 ^ 64"
    using that c by simp
  have "\<forall>m \<in> msgs_this_round_' (accept s msg). round m = round_' (accept s msg)"
    using assms(5) ValidMessage_True_round [OF assms(3)] by (simp add: accept_def)
  note mv = MoveToNewRoundOrStop_no_throw [OF this]
  show "on_message s from_addr buf =
      (if RoundComplete (accept s msg) then
         (if LastRound s then Inr (Stop, accept s msg, [AckSent from_addr (round_' s)])
          else Inr (Continue,
                    (accept s msg)\<lparr>round_' := round_' s + 1,
                                   msgs_this_round_' := {}, ids_this_round_' := {}\<rparr>,
                    [AckSent from_addr (round_' s),
                     RelaysSpawned (toSend (IncrementRound (accept s msg)))]))
       else Inr (Continue, accept s msg, [AckSent from_addr (round_' s)]))"
    unfolding on_message_new_path [OF assms(1-4)] mv
    by (simp add: after_output_def LastRound_def IncrementRound_def accept_def)
qed

theorem C4_second_relay_completes_round_witness:
  "MessagesForRound 4 1 = 2 \<and>
   on_message lieutenant1_round1 \<lparr>hostname = ''h3'', port = 40000\<rparr>
       (SendMessage 0 \<lparr>round = 1, order = ATTACK, ids = [0, 3]\<rparr>) =
     Inr (Stop, accept lieutenant1_round1 \<lparr>round = 1, order = ATTACK, ids = [0, 3]\<rparr>,
          [AckSent \<lparr>hostname = ''h3'', port = 40000\<rparr> 1])"
proof -
  have v: "ValidMessage lieutenant1_round1 \<lparr>round = 1, order = ATTACK, ids = [0, 3]\<rparr>
             \<lparr>hostname = ''h3'', port = 40000\<rparr> = Inr True"
    by (simp add: ValidMessage_def lieutenant1_round1_def hosts4_def)
  have m: "MessagesForRound 4 1 = 2"
    by (simp add: MessagesForRound_rec MessagesForRound_0)
  have c: "RoundComplete (accept lieutenant1_round1 \<lparr>round = 1, order = ATTACK, ids = [0, 3]\<rparr>)"
    by (simp add: RoundComplete_def accept_def lieutenant1_round1_def hosts4_def m)
  have l: "LastRound lieutenant1_round1"
    by (simp add: LastRound_def lieutenant1_round1_def)
  show ?thesis
    using C4_round_complete_at_MessagesForRound [where s = lieutenant1_round1
        and buf = "SendMessage 0 \<lparr>round = 1, order = ATTACK, ids = [0, 3]\<rparr>"
        and msg = "\<lparr>round = 1, order = ATTACK, ids = [0, 3]\<rparr>"
        and from_addr = "\<lparr>hostname = ''h3'', port = 40000\<rparr>" and n = 4 and k = 1]
      v m c l
    by (simp add: ByzantineMsgFromBuf_SendMessage lieutenant1_round1_def)
qed

lemma spec_M_pos: "int k < n - 1 \<Longrightarrow> 0 < spec_M n k"
  by (induction k) simp_all

lemma MessagesForRound_200_66: "MessagesForRound 200 66 = 0"
  by (simp add: MessagesForRound_rec MessagesForRound_0)

text \<open>
  C4 as stated fails where \<open>M(n, k)\<close> does not fit \<^verbatim>\<open>size_t\<close>: with 200 processes,
  \<^verbatim>\<open>MessagesForRound\<close> gives 0 for round 66, since \<open>M(200, 66)\<close> is a multiple of \<open>2^64\<close>.
  So \<^verbatim>\<open>RoundComplete\<close> holds of the state that has no path at all, while \<open>M(200, 66)\<close> is
  positive.
\<close>

theorem C4_count_wraps_to_zero_at_round_66:
  "RoundComplete lieutenant_round66 \<and>
   card (ids_this_round_' lieutenant_round66) = 0 \<and>
   length (processes_' lieutenant_round66) = 200 \<and> round_' lieutenant_round66 = 66 \<and>
   0 < spec_M (int (length (processes_' lieutenant_round66))) (unat (round_' lieutenant_round66))"
proof -
  have "0 < spec_M 200 66"
    by (rule spec_M_pos) simp
  then show ?thesis
    by (simp add: RoundComplete_def lieutenant_round66_def MessagesForRound_200_66)
qed

section \<open>The listen loop\<close>

lemma emitted_before_Nil: "emitted_before [] r = r"
  by (cases r) simp_all

lemma emitted_before_Listening:
  "emitted_before outs r = Listening s outs' \<Longrightarrow> \<exists>outs''. r = Listening s outs''"
  by (cases r) simp_all

lemma emitted_before_Stopped:
  "emitted_before outs r = Stopped s outs' \<Longrightarrow> \<exists>outs''. r = Stopped s outs''"
  by (cases r) simp_all

lemma emitted_before_Raised:
  "emitted_before outs r = Raised e \<Longrightarrow> r = Raised e"
  by (cases r) simp_all

lemma on_message_rejected:
  assumes "\<forall>msg. ByzantineMsgFromBuf buf = Some msg \<longrightarrow> ValidMessage s msg from_addr = Inr False"
  shows "on_message s from_addr buf = Inr (Continue, s, [])"
  using assms by (cases "ByzantineMsgFromBuf buf") (simp_all add: on_message_def ContinueUnlessTimeout_def)

text \<open>
  C9: when the datagram does not decode, or decodes to a message for which
  \<^verbatim>\<open>ValidMessage\<close> returns false, the callback sends no Ack and spawns nothing, leaves the
  whole state as it was (so \<^verbatim>\<open>round_\<close>, \<^verbatim>\<open>orders_seen_\<close>, \<^verbatim>\<open>msgs_this_round_\<close> and
  \<^verbatim>\<open>ids_this_round_\<close>), and answers \<^verbatim>\<open>Continue\<close>: the loop goes on with the next event
  as if the datagram had not arrived.
\<close>

theorem C9_rejected_datagram_changes_nothing:
  assumes "\<forall>msg. ByzantineMsgFromBuf buf = Some msg \<longrightarrow> ValidMessage s msg from_addr = Inr False"
  shows "on_message s from_addr buf = Inr (Continue, s, []) \<and>
         Listen s (Datagram from_addr buf # evs) = Listen s evs"
  using on_message_rejected [OF assms] by (simp add: emitted_before_Nil)

lemmas run_defs = relay_from_commander_def from_p0_def from_p1_def from_p2_def from_p3_def
  hosts4_def new_Lieutenant_def

lemmas step_simps = on_message_def ByzantineMsgFromBuf_SendMessage ValidMessage_def
  FirstRound_def LastRound_def MoveToNewRoundOrStop_def InitNewRound_def IncrementRound_def
  accept_def accept_first_def after_output_def ContinueUnlessTimeout_def RoundComplete_def
  HandleRoundTimeout_def MessagesForRound_rec MessagesForRound_0 Let_def

theorem C9_short_and_stale_datagram_witness:
  "on_message lieutenant1_round1 from_p3 [0, 0, 0, 1, 0, 0, 0, 12, 0, 0, 0, 1] =
     Inr (Continue, lieutenant1_round1, []) \<and>
   on_message lieutenant1_round1 from_p3
       (SendMessage 0 \<lparr>round = 0, order = RETREAT, ids = [0]\<rparr>) =
     Inr (Continue, lieutenant1_round1, []) \<and>
   Listen lieutenant1_round1
       [Datagram from_p3 (SendMessage 0 \<lparr>round = 0, order = RETREAT, ids = [0]\<rparr>)] =
     Listening lieutenant1_round1 []"
  using C9_rejected_datagram_changes_nothing [of "[0, 0, 0, 1, 0, 0, 0, 12, 0, 0, 0, 1]" lieutenant1_round1 from_p3 "[]"]
    C9_rejected_datagram_changes_nothing [of "SendMessage 0 \<lparr>round = 0, order = RETREAT, ids = [0]\<rparr>" lieutenant1_round1
      from_p3 "[]"]
  by (simp add: ByzantineMsgFromBuf_SendMessage)
    (simp add: ByzantineMsgFromBuf_def ValidMessage_def lieutenant1_round1_def
      sizeof_ByzantineMessage_def)

section \<open>The Round State invariants hold while the loop listens\<close>

lemma path_bijection_card:
  "path_bijection s \<Longrightarrow> card (ids_this_round_' s) = card (msgs_this_round_' s)"
  unfolding path_bijection_def by (metis bij_betw_same_card)

lemma listening_inv_spec: "listening_inv s \<Longrightarrow> spec_round_state_inv s"
  by (auto simp: listening_inv_def spec_round_state_inv_def path_bijection_card)

lemma path_bijection_accept:
  assumes "path_bijection s" and "ids msg \<notin> ids_this_round_' s"
  shows "path_bijection (accept s msg)"
proof -
  from assms(1) have fin: "finite (msgs_this_round_' s)"
    and bij: "bij_betw ids (msgs_this_round_' s) (ids_this_round_' s)"
    by (simp_all add: path_bijection_def)
  from bij assms(2) have "msg \<notin> msgs_this_round_' s"
    by (auto simp: bij_betw_def)
  with bij assms(2) have "bij_betw ids (insert msg (msgs_this_round_' s))
      (insert (ids msg) (ids_this_round_' s))"
    by (auto simp: bij_betw_def)
  with fin show ?thesis
    by (simp add: path_bijection_def accept_def)
qed

lemma listening_inv_accept:
  assumes "listening_inv s" and "round_' s \<noteq> 0" and "round msg = round_' s"
    and "ids msg \<notin> ids_this_round_' s"
  shows "listening_inv (accept s msg)"
proof -
  have "path_bijection (accept s msg)"
    using assms(1,4) by (simp add: listening_inv_def path_bijection_accept)
  then show ?thesis
    using assms(1,2,3) by (simp add: listening_inv_def) (simp add: accept_def)
qed

lemma listening_inv_cleared:
  "listening_inv
     ((IncrementRound s)\<lparr>msgs_this_round_' := {}, ids_this_round_' := {}\<rparr>)"
  by (simp add: listening_inv_def path_bijection_def bij_betw_def)

lemma listening_inv_stopped: "listening_inv s \<Longrightarrow> round_' s \<noteq> 0 \<Longrightarrow> stopped_inv s"
  by (auto simp: listening_inv_def stopped_inv_def path_bijection_card)

lemma MoveToNewRoundOrStop_inv:
  assumes "\<forall>m \<in> msgs_this_round_' s. round m = round_' s"
  shows "MoveToNewRoundOrStop s = Inr (Continue, s', outs) \<Longrightarrow> listening_inv s'"
    and "MoveToNewRoundOrStop s = Inr (Stop, s', outs) \<Longrightarrow> s' = s"
    and "MoveToNewRoundOrStop s \<noteq> Inl e"
  unfolding MoveToNewRoundOrStop_no_throw [OF assms]
  by (auto simp: listening_inv_cleared split: if_splits)

lemma after_output_Inr:
  "after_output out r = Inr (a, s', outs) \<Longrightarrow> \<exists>outs'. r = Inr (a, s', outs')"
  by (auto simp: after_output_def split: sum.splits)

lemma after_output_Inl: "after_output out r = Inl e \<Longrightarrow> r = Inl e"
  by (auto simp: after_output_def split: sum.splits)


lemma ValidMessage_Inl:
  assumes "ValidMessage s msg from_addr = Inl e"
  shows "e = OutOfRange" and "round_' s = - 1"
proof -
  from assms show "e = OutOfRange"
    by (auto simp: ValidMessage_def split: if_splits)
  from assms have "round msg = round_' s" and "unat (round msg + 1) = 0"
    by (auto simp: ValidMessage_def split: if_splits)
  then have "round_' s + 1 = 0"
    by (simp add: unat_eq_0)
  then show "round_' s = - 1"
    by (simp add: add_eq_0_iff2)
qed

lemma on_message_cases:
  obtains
    (rejected) "on_message s from_addr buf = Inr (Continue, s, [])"
      and "stores s (Datagram from_addr buf) = None"
  | (undefined_read) "on_message s from_addr buf = Inl OutOfRange" and "round_' s = - 1"
  | (duplicate) "on_message s from_addr buf = Inr (Continue, s, [AckSent from_addr (round_' s)])"
      and "stores s (Datagram from_addr buf) = None"
  | (first) msg where "ValidMessage s msg from_addr = Inr True" and "round_' s = 0"
      and "ByzantineMsgFromBuf buf = Some msg"
      and "on_message s from_addr buf =
             after_output (AckSent from_addr (round_' s))
               (MoveToNewRoundOrStop (accept_first s msg))"
      and "stores s (Datagram from_addr buf) = Some msg"
  | (stored) msg where "ValidMessage s msg from_addr = Inr True" and "round_' s \<noteq> 0"
      and "ids msg \<notin> ids_this_round_' s" and "ByzantineMsgFromBuf buf = Some msg"
      and "on_message s from_addr buf =
             Inr (Continue, accept s msg, [AckSent from_addr (round_' s)])"
      and "stores s (Datagram from_addr buf) = Some msg"
  | (complete) msg where "ValidMessage s msg from_addr = Inr True" and "round_' s \<noteq> 0"
      and "ids msg \<notin> ids_this_round_' s" and "ByzantineMsgFromBuf buf = Some msg"
      and "on_message s from_addr buf =
             after_output (AckSent from_addr (round_' s))
               (MoveToNewRoundOrStop (accept s msg))"
      and "stores s (Datagram from_addr buf) = Some msg"
proof (cases "ByzantineMsgFromBuf buf")
  case None
  then have "on_message s from_addr buf = Inr (Continue, s, [])"
    and "stores s (Datagram from_addr buf) = None"
    by (simp_all add: on_message_def ContinueUnlessTimeout_def)
  then show ?thesis by (rule rejected)
next
  case (Some msg)
  show ?thesis
  proof (cases "ValidMessage s msg from_addr")
    case (Inl e)
    then have "e = OutOfRange" and "round_' s = - 1"
      by (rule ValidMessage_Inl)+
    with Inl Some have "on_message s from_addr buf = Inl OutOfRange"
      by (simp add: on_message_def)
    then show ?thesis using \<open>round_' s = - 1\<close> by (rule undefined_read)
  next
    case (Inr b)
    show ?thesis
    proof (cases b)
      case False
      with Inr Some have "on_message s from_addr buf = Inr (Continue, s, [])"
        and "stores s (Datagram from_addr buf) = None"
        by (simp_all add: on_message_def ContinueUnlessTimeout_def)
      then show ?thesis by (rule rejected)
    next
      case True
      with Inr have v: "ValidMessage s msg from_addr = Inr True" by simp
      consider "round_' s = 0" "card (orders_seen_' s) = 0"
        | "round_' s = 0" "card (orders_seen_' s) \<noteq> 0"
        | "round_' s \<noteq> 0" "ids msg \<in> ids_this_round_' s"
        | "round_' s \<noteq> 0" "ids msg \<notin> ids_this_round_' s" "RoundComplete (accept s msg)"
        | "round_' s \<noteq> 0" "ids msg \<notin> ids_this_round_' s" "\<not> RoundComplete (accept s msg)"
        by blast
      then show ?thesis
      proof cases
        case 1
        with v Some show ?thesis
          by (intro first [of msg]) (simp_all add: on_message_def FirstRound_def)
      next
        case 2
        with v Some show ?thesis
          by (intro duplicate)
            (simp_all add: on_message_def FirstRound_def ContinueUnlessTimeout_def
              after_output_def)
      next
        case 3
        with v Some show ?thesis
          by (intro duplicate)
            (simp_all add: on_message_def FirstRound_def ContinueUnlessTimeout_def
              after_output_def)
      next
        case 4
        with v Some show ?thesis
          by (intro complete [of msg]) (simp_all add: on_message_def FirstRound_def)
      next
        case 5
        with v Some show ?thesis
          by (intro stored [of msg])
            (simp_all add: on_message_def FirstRound_def ContinueUnlessTimeout_def after_output_def)
      qed
    qed
  qed
qed

lemma accept_first_rounds:
  assumes "listening_inv s" and "round_' s = 0" and "round msg = round_' s"
  shows "\<forall>m \<in> msgs_this_round_' (accept_first s msg). round m = round_' (accept_first s msg)"
    and "stopped_inv (accept_first s msg)"
proof -
  from assms(1,2) have e: "msgs_this_round_' s = {}" and "path_bijection s"
    by (simp_all add: listening_inv_def)
  then have i: "ids_this_round_' s = {}"
    by (auto simp: path_bijection_def dest: bij_betw_empty1)
  from e assms(3)
  show "\<forall>m \<in> msgs_this_round_' (accept_first s msg). round m = round_' (accept_first s msg)"
    by (simp add: accept_first_def)
  from e i assms(2,3) show "stopped_inv (accept_first s msg)"
    by (simp add: stopped_inv_def accept_first_def)
qed

lemma on_message_inv:
  assumes "listening_inv s"
  shows "on_message s from_addr buf = Inr (Continue, s', outs) \<Longrightarrow> listening_inv s'"
    and "on_message s from_addr buf = Inr (Stop, s', outs) \<Longrightarrow> stopped_inv s'"
    and "on_message s from_addr buf \<noteq> Inl LogicError"
proof -
  have "(on_message s from_addr buf = Inr (Continue, s', outs) \<longrightarrow> listening_inv s') \<and>
        (on_message s from_addr buf = Inr (Stop, s', outs) \<longrightarrow> stopped_inv s') \<and>
        on_message s from_addr buf \<noteq> Inl LogicError"
  proof (cases rule: on_message_cases [where s = s and from_addr = from_addr and buf = buf])
    case rejected
    with assms show ?thesis by auto
  next
    case undefined_read
    then show ?thesis by simp
  next
    case duplicate
    with assms show ?thesis by auto
  next
    case (first msg)
    have r: "round msg = round_' s"
      using first(1) by (rule ValidMessage_True_round)
    note a = accept_first_rounds [OF assms first(2) r]
    note mv = MoveToNewRoundOrStop_inv [OF a(1)]
    show ?thesis
      unfolding first(4)
      using mv(1,2) mv(3) [of LogicError] a(2)
      by (auto dest!: after_output_Inr after_output_Inl)
  next
    case (stored msg)
    have r: "round msg = round_' s"
      using stored(1) by (rule ValidMessage_True_round)
    show ?thesis
      unfolding stored(5)
      using listening_inv_accept [OF assms stored(2) r stored(3)] by auto
  next
    case (complete msg)
    have r: "round msg = round_' s"
      using complete(1) by (rule ValidMessage_True_round)
    have inv: "listening_inv (accept s msg)"
      using listening_inv_accept [OF assms complete(2) r complete(3)] .
    have nz: "round_' (accept s msg) \<noteq> 0"
      using complete(2) by (simp add: accept_def)
    from inv have "\<forall>m \<in> msgs_this_round_' (accept s msg). round m = round_' (accept s msg)"
      by (simp add: listening_inv_def)
    note mv = MoveToNewRoundOrStop_inv [OF this]
    show ?thesis
      unfolding complete(5)
      using mv(1,2) mv(3) [of LogicError] listening_inv_stopped [OF inv nz]
      by (auto dest!: after_output_Inr after_output_Inl)
  qed
  then show "on_message s from_addr buf = Inr (Continue, s', outs) \<Longrightarrow> listening_inv s'"
    and "on_message s from_addr buf = Inr (Stop, s', outs) \<Longrightarrow> stopped_inv s'"
    and "on_message s from_addr buf \<noteq> Inl LogicError"
    by simp_all
qed

lemma HandleRoundTimeout_inv:
  assumes "listening_inv s"
  shows "HandleRoundTimeout s = Inr (Continue, s', outs) \<Longrightarrow> listening_inv s'"
    and "HandleRoundTimeout s = Inr (Stop, s', outs) \<Longrightarrow> stopped_inv s'"
    and "HandleRoundTimeout s \<noteq> Inl LogicError"
proof -
  have "\<forall>m \<in> msgs_this_round_' s. round m = round_' s"
    using assms by (simp add: listening_inv_def)
  note mv = MoveToNewRoundOrStop_inv [OF this]
  show "HandleRoundTimeout s = Inr (Continue, s', outs) \<Longrightarrow> listening_inv s'"
    using mv(1) assms by (auto simp: HandleRoundTimeout_def split: if_splits)
  show "HandleRoundTimeout s = Inr (Stop, s', outs) \<Longrightarrow> stopped_inv s'"
    using mv(2) listening_inv_stopped [OF assms]
    by (auto simp: HandleRoundTimeout_def FirstRound_def split: if_splits)
  show "HandleRoundTimeout s \<noteq> Inl LogicError"
    using mv(3) [of LogicError] by (auto simp: HandleRoundTimeout_def split: if_splits)
qed

lemma callback_inv:
  assumes "listening_inv s"
  shows "callback s ev = Inr (Continue, s', outs) \<Longrightarrow> listening_inv s'"
    and "callback s ev = Inr (Stop, s', outs) \<Longrightarrow> stopped_inv s'"
    and "callback s ev \<noteq> Inl LogicError"
  using on_message_inv [OF assms] HandleRoundTimeout_inv [OF assms]
  by (cases ev; simp)+

lemma Listen_inv:
  assumes "listening_inv s"
  shows "(Listen s evs = Listening s' outs \<longrightarrow> listening_inv s') \<and>
         (Listen s evs = Stopped s' outs \<longrightarrow> stopped_inv s') \<and>
         Listen s evs \<noteq> Raised LogicError"
  using assms
proof (induction evs arbitrary: s outs)
  case Nil
  then show ?case by auto
next
  case (Cons ev evs)
  show ?case
  proof (cases "callback s ev")
    case (Inl e)
    with callback_inv(3) [OF Cons.prems, of ev] show ?thesis by auto
  next
    case (Inr r)
    obtain a s1 outs1 where r: "r = (a, s1, outs1)" by (cases r)
    show ?thesis
    proof (cases a)
      case Stop
      with Inr r callback_inv(2) [OF Cons.prems, of ev s1 outs1] show ?thesis by auto
    next
      case Continue
      with Inr r have inv1: "listening_inv s1"
        using callback_inv(1) [OF Cons.prems, of ev s1 outs1] by simp
      have L: "Listen s (ev # evs) = emitted_before outs1 (Listen s1 evs)"
        using Inr r Continue by simp
      show ?thesis
        unfolding L using Cons.IH [OF inv1]
        by (auto dest!: emitted_before_Listening emitted_before_Stopped emitted_before_Raised)
    qed
  qed
qed

lemma listening_inv_new: "listening_inv (new_Lieutenant i ps m)"
  by (simp add: listening_inv_def new_Lieutenant_def path_bijection_def bij_betw_def)

text \<open>
  C5, as the code has it. For a Lieutenant started in round 0 with empty sets, whatever
  the network delivers: at every point at which the loop waits for the next event,
  every retained message is of the current round, the retained paths and the retained
  messages correspond one to one (so there are as many of each), and at round 0 nothing
  is retained. When the loop has stopped, every retained message is of the current
  round, at round 0 exactly one message is retained and no path, and in a later round
  the paths and the messages still correspond one to one. \<^verbatim>\<open>InitNewRound\<close> never throws its
  \<^verbatim>\<open>logic_error\<close>.
\<close>

theorem C5_round_state_invariants:
  "(Listen (new_Lieutenant i ps m) evs = Listening s outs \<longrightarrow>
      spec_round_state_inv s \<and> path_bijection s) \<and>
   (Listen (new_Lieutenant i ps m) evs = Stopped s outs \<longrightarrow> stopped_inv s) \<and>
   Listen (new_Lieutenant i ps m) evs \<noteq> Raised LogicError"
proof -
  have "listening_inv (new_Lieutenant i ps m)"
    by (rule listening_inv_new)
  note L = Listen_inv [OF this, where evs = evs and s' = s and outs = outs]
  have "listening_inv s \<Longrightarrow> spec_round_state_inv s \<and> path_bijection s"
    by (simp add: listening_inv_spec) (simp add: listening_inv_def)
  with L show ?thesis by blast
qed

text \<open>
  C5 as stated fails after the acceptance that ends a single-round run (\<open>m = 0\<close>): the
  first-round branch stores the message and not its path, so the loop stops with one
  retained message and no retained path.
\<close>

theorem C5_single_round_stop_has_no_path:
  "Listen (new_Lieutenant 1 hosts4 0) [Datagram from_p0 (SendMessage 0 relay_from_commander)] =
     Stopped (accept_first (new_Lieutenant 1 hosts4 0) relay_from_commander) [AckSent from_p0 0] \<and>
   card (ids_this_round_' (accept_first (new_Lieutenant 1 hosts4 0) relay_from_commander)) = 0 \<and>
   card (msgs_this_round_' (accept_first (new_Lieutenant 1 hosts4 0) relay_from_commander)) = 1"
  by (simp add: step_simps run_defs)

theorem C5_lieutenant1_in_round1_witness:
  "(\<exists>outs. Listen (new_Lieutenant 1 hosts4 1)
       [Datagram from_p0 (SendMessage 0 relay_from_commander),
        Datagram from_p2 (SendMessage 0 \<lparr>round = 1, order = ATTACK, ids = [0, 2]\<rparr>)] =
      Listening lieutenant1_round1 outs) \<and>
   spec_round_state_inv lieutenant1_round1 \<and> path_bijection lieutenant1_round1"
proof -
  have L: "\<exists>outs. Listen (new_Lieutenant 1 hosts4 1)
       [Datagram from_p0 (SendMessage 0 relay_from_commander),
        Datagram from_p2 (SendMessage 0 \<lparr>round = 1, order = ATTACK, ids = [0, 2]\<rparr>)] =
      Listening lieutenant1_round1 outs"
    by (simp add: step_simps run_defs lieutenant1_round1_def)
  then obtain outs where "Listen (new_Lieutenant 1 hosts4 1)
       [Datagram from_p0 (SendMessage 0 relay_from_commander),
        Datagram from_p2 (SendMessage 0 \<lparr>round = 1, order = ATTACK, ids = [0, 2]\<rparr>)] =
      Listening lieutenant1_round1 outs" ..
  with C5_round_state_invariants [of 1 hosts4 1 _ lieutenant1_round1 outs] L show ?thesis
    by blast
qed

section \<open>What the Lieutenants decide\<close>

lemma DecideOrder_by_set:
  "DecideOrder s = (if orders_seen_' s = {ATTACK} then ATTACK else RETREAT)"
  by (auto simp: DecideOrder_def card_1_singleton_iff)

lemma run_inv_new: "run_inv (new_Lieutenant i ps m)"
  by (simp add: run_inv_def listening_inv_new) (simp add: new_Lieutenant_def)

lemma toSend_orders: "(pid, msg) \<in> toSend s \<Longrightarrow> order msg \<in> order ` msgs_this_round_' s"
  by (auto simp: toSend_def forward_def)

text \<open>What \<^verbatim>\<open>MoveToNewRoundOrStop\<close> does to a state that satisfies the invariants.\<close>

lemma MoveToNewRoundOrStop_run_inv:
  assumes rounds: "\<forall>m \<in> msgs_this_round_' s. round m = round_' s"
    and sub: "order ` msgs_this_round_' s \<subseteq> orders_seen_' s"
    and le: "unat (round_' s) \<le> unat (faulty_' s)"
    and ne: "orders_seen_' s \<noteq> {}"
    and "MoveToNewRoundOrStop s = Inr (a, s', outs)"
  shows "orders_seen_' s' = orders_seen_' s"
    and "faulty_' s' = faulty_' s" and "processes_' s' = processes_' s"
    and "list_all (spawns_among (orders_seen_' s)) outs"
    and "a = Stop \<Longrightarrow> round_' s = faulty_' s"
    and "a = Continue \<Longrightarrow> run_inv s' \<and> round_' s' = round_' s + 1 \<and> round_' s' \<noteq> 0 \<and>
           unat (round_' s') = unat (round_' s) + 1"
proof -
  note mv = assms(5) [unfolded MoveToNewRoundOrStop_no_throw [OF rounds]]
  show "orders_seen_' s' = orders_seen_' s"
    and "faulty_' s' = faulty_' s" and "processes_' s' = processes_' s"
    using mv by (auto simp: IncrementRound_def split: if_splits)
  have "spawns_among (orders_seen_' s) (RelaysSpawned (toSend (IncrementRound s)))"
    using sub toSend_orders [of _ _ "IncrementRound s"] by (auto simp: IncrementRound_def)
  then show "list_all (spawns_among (orders_seen_' s)) outs"
    using mv by (auto split: if_splits)
  show "round_' s = faulty_' s" if "a = Stop"
    using mv that by (auto simp: LastRound_def split: if_splits)
  show "run_inv s' \<and> round_' s' = round_' s + 1 \<and> round_' s' \<noteq> 0 \<and>
           unat (round_' s') = unat (round_' s) + 1" if "a = Continue"
  proof -
    from mv that have nl: "round_' s \<noteq> faulty_' s"
      and s': "s' = (IncrementRound s)\<lparr>msgs_this_round_' := {}, ids_this_round_' := {}\<rparr>"
      by (auto simp: LastRound_def split: if_splits)
    from le nl have lt: "unat (round_' s) < unat (faulty_' s)"
      by (simp add: word_unat_eq_iff)
    have "unat (faulty_' s) < 2 ^ 32"
      using unsigned_less [of "faulty_' s", where 'a = nat] by simp
    with lt have "round_' s \<noteq> - 1"
      by (auto simp: unsigned_minus_1_eq_mask mask_eq_exp_minus_1)
    then have u: "unat (round_' s + 1) = unat (round_' s) + 1"
      by (rule unat_plus_one)
    then have nz: "round_' s + 1 \<noteq> 0"
      by (metis Suc_eq_plus1 nat.distinct(1) unat_0)
    have "run_inv s'"
      unfolding s' run_inv_def
      using listening_inv_cleared [of s] ne u lt nz
      by (simp add: IncrementRound_def)
    with u nz show ?thesis
      by (simp add: s' IncrementRound_def)
  qed
qed


lemma after_output_Inr_iff:
  "after_output out r = Inr (a, s', outs) \<longleftrightarrow>
     (\<exists>outs'. r = Inr (a, s', outs') \<and> outs = out # outs')"
  by (auto simp: after_output_def split: sum.splits)

lemma on_message_run_inv:
  assumes "run_inv s" and "on_message s from_addr buf = Inr (a, s', outs)"
  shows "orders_seen_' s' = orders_seen_' s \<union> order ` set_option (stores s (Datagram from_addr buf))"
    and "faulty_' s' = faulty_' s" and "processes_' s' = processes_' s"
    and "list_all (spawns_among (orders_seen_' s')) outs"
    and "a = Stop \<Longrightarrow> orders_seen_' s' \<noteq> {}"
    and "a = Continue \<Longrightarrow> run_inv s' \<and> unat (round_' s) \<le> unat (round_' s') \<and>
           (round_' s \<noteq> 0 \<longrightarrow> round_' s' \<noteq> 0) \<and> (round_' s = 0 \<longrightarrow> s' = s \<or> round_' s' \<noteq> 0)"
proof -
  have inv: "listening_inv s" and sub: "order ` msgs_this_round_' s \<subseteq> orders_seen_' s"
    and le: "unat (round_' s) \<le> unat (faulty_' s)"
    using assms(1) by (simp_all add: run_inv_def)
  have "orders_seen_' s' = orders_seen_' s \<union> order ` set_option (stores s (Datagram from_addr buf)) \<and>
        faulty_' s' = faulty_' s \<and> processes_' s' = processes_' s \<and>
        list_all (spawns_among (orders_seen_' s')) outs \<and>
        (a = Stop \<longrightarrow> orders_seen_' s' \<noteq> {}) \<and>
        (a = Continue \<longrightarrow> run_inv s' \<and> unat (round_' s) \<le> unat (round_' s') \<and>
           (round_' s \<noteq> 0 \<longrightarrow> round_' s' \<noteq> 0) \<and> (round_' s = 0 \<longrightarrow> s' = s \<or> round_' s' \<noteq> 0))"
  proof (cases rule: on_message_cases [where s = s and from_addr = from_addr and buf = buf])
    case rejected
    with assms show ?thesis by auto
  next
    case undefined_read
    with assms show ?thesis by simp
  next
    case duplicate
    with assms show ?thesis by auto
  next
    case (first msg)
    let ?s1 = "accept_first s msg"
    have r: "round msg = round_' s"
      using first(1) by (rule ValidMessage_True_round)
    have e: "msgs_this_round_' s = {}"
      using inv first(2) by (simp add: listening_inv_def)
    have rounds1: "\<forall>m \<in> msgs_this_round_' ?s1. round m = round_' ?s1"
      using r e by (simp add: accept_first_def)
    have sub1: "order ` msgs_this_round_' ?s1 \<subseteq> orders_seen_' ?s1"
      using e by (simp add: accept_first_def)
    have le1: "unat (round_' ?s1) \<le> unat (faulty_' ?s1)"
      using le by (simp add: accept_first_def)
    have ne1: "orders_seen_' ?s1 \<noteq> {}"
      by (simp add: accept_first_def)
    from assms(2) obtain outs' where
      mv: "MoveToNewRoundOrStop ?s1 = Inr (a, s', outs')"
      and outs: "outs = AckSent from_addr (round_' s) # outs'"
      unfolding first(4) after_output_Inr_iff by blast
    note m = MoveToNewRoundOrStop_run_inv [OF rounds1 sub1 le1 ne1 mv]
    have o: "orders_seen_' s' = insert (order msg) (orders_seen_' s)"
      using m(1) by (simp add: accept_first_def)
    show ?thesis
      using o m(2,3,4,6) outs first(2,5)
      by (auto simp: accept_first_def)
  next
    case (stored msg)
    have r: "round msg = round_' s"
      using stored(1) by (rule ValidMessage_True_round)
    have "listening_inv (accept s msg)"
      using listening_inv_accept [OF inv stored(2) r stored(3)] .
    then have "run_inv (accept s msg)"
      using sub le by (auto simp: run_inv_def accept_def)
    with assms(2) stored(2,6) show ?thesis
      unfolding stored(5) by (auto simp: accept_def)
  next
    case (complete msg)
    let ?s1 = "accept s msg"
    have r: "round msg = round_' s"
      using complete(1) by (rule ValidMessage_True_round)
    have inv1: "listening_inv ?s1"
      using listening_inv_accept [OF inv complete(2) r complete(3)] .
    then have rounds1: "\<forall>m \<in> msgs_this_round_' ?s1. round m = round_' ?s1"
      by (simp add: listening_inv_def)
    have sub1: "order ` msgs_this_round_' ?s1 \<subseteq> orders_seen_' ?s1"
      using sub by (auto simp: accept_def)
    have le1: "unat (round_' ?s1) \<le> unat (faulty_' ?s1)"
      using le by (simp add: accept_def)
    have ne1: "orders_seen_' ?s1 \<noteq> {}"
      by (simp add: accept_def)
    from assms(2) obtain outs' where
      mv: "MoveToNewRoundOrStop ?s1 = Inr (a, s', outs')"
      and outs: "outs = AckSent from_addr (round_' s) # outs'"
      unfolding complete(5) after_output_Inr_iff by blast
    note m = MoveToNewRoundOrStop_run_inv [OF rounds1 sub1 le1 ne1 mv]
    have o: "orders_seen_' s' = insert (order msg) (orders_seen_' s)"
      using m(1) by (simp add: accept_def)
    show ?thesis
      using o m(2,3,4,6) outs complete(2,6)
      by (auto simp: accept_def)
  qed
  then show "orders_seen_' s' = orders_seen_' s \<union> order ` set_option (stores s (Datagram from_addr buf))"
    and "faulty_' s' = faulty_' s" and "processes_' s' = processes_' s"
    and "list_all (spawns_among (orders_seen_' s')) outs"
    and "a = Stop \<Longrightarrow> orders_seen_' s' \<noteq> {}"
    and "a = Continue \<Longrightarrow> run_inv s' \<and> unat (round_' s) \<le> unat (round_' s') \<and>
           (round_' s \<noteq> 0 \<longrightarrow> round_' s' \<noteq> 0) \<and> (round_' s = 0 \<longrightarrow> s' = s \<or> round_' s' \<noteq> 0)"
    by blast+
qed


lemma HandleRoundTimeout_run_inv:
  assumes "run_inv s" and "HandleRoundTimeout s = Inr (a, s', outs)"
  shows "orders_seen_' s' = orders_seen_' s"
    and "faulty_' s' = faulty_' s" and "processes_' s' = processes_' s"
    and "list_all (spawns_among (orders_seen_' s')) outs"
    and "a = Stop \<Longrightarrow> orders_seen_' s' \<noteq> {}"
    and "a = Continue \<Longrightarrow> run_inv s' \<and> unat (round_' s) \<le> unat (round_' s') \<and>
           (round_' s \<noteq> 0 \<longrightarrow> unat (round_' s') = unat (round_' s) + 1 \<and> round_' s' \<noteq> 0) \<and>
           (round_' s = 0 \<longrightarrow> s' = s)"
proof -
  have "orders_seen_' s' = orders_seen_' s \<and>
        faulty_' s' = faulty_' s \<and> processes_' s' = processes_' s \<and>
        list_all (spawns_among (orders_seen_' s')) outs \<and>
        (a = Stop \<longrightarrow> orders_seen_' s' \<noteq> {}) \<and>
        (a = Continue \<longrightarrow> run_inv s' \<and> unat (round_' s) \<le> unat (round_' s') \<and>
           (round_' s \<noteq> 0 \<longrightarrow> unat (round_' s') = unat (round_' s) + 1 \<and> round_' s' \<noteq> 0) \<and>
           (round_' s = 0 \<longrightarrow> s' = s))"
  proof (cases "round_' s = 0")
    case True
    with assms show ?thesis
      by (auto simp: HandleRoundTimeout_def FirstRound_def)
  next
    case False
    have rounds: "\<forall>m \<in> msgs_this_round_' s. round m = round_' s"
      and sub: "order ` msgs_this_round_' s \<subseteq> orders_seen_' s"
      and le: "unat (round_' s) \<le> unat (faulty_' s)"
      and ne: "orders_seen_' s \<noteq> {}"
      using assms(1) False by (auto simp: run_inv_def listening_inv_def)
    have mv: "MoveToNewRoundOrStop s = Inr (a, s', outs)"
      using assms(2) False by (simp add: HandleRoundTimeout_def FirstRound_def)
    note m = MoveToNewRoundOrStop_run_inv [OF rounds sub le ne mv]
    show ?thesis
      using m False ne by auto
  qed
  then show "orders_seen_' s' = orders_seen_' s"
    and "faulty_' s' = faulty_' s" and "processes_' s' = processes_' s"
    and "list_all (spawns_among (orders_seen_' s')) outs"
    and "a = Stop \<Longrightarrow> orders_seen_' s' \<noteq> {}"
    and "a = Continue \<Longrightarrow> run_inv s' \<and> unat (round_' s) \<le> unat (round_' s') \<and>
           (round_' s \<noteq> 0 \<longrightarrow> unat (round_' s') = unat (round_' s) + 1 \<and> round_' s' \<noteq> 0) \<and>
           (round_' s = 0 \<longrightarrow> s' = s)"
    by blast+
qed

lemma callback_run_inv:
  assumes "run_inv s" and "callback s ev = Inr (a, s', outs)"
  shows "orders_seen_' s' = orders_seen_' s \<union> order ` set_option (stores s ev)"
    and "faulty_' s' = faulty_' s" and "processes_' s' = processes_' s"
    and "list_all (spawns_among (orders_seen_' s')) outs"
    and "a = Stop \<Longrightarrow> orders_seen_' s' \<noteq> {}"
    and "a = Continue \<Longrightarrow> run_inv s' \<and> unat (round_' s) \<le> unat (round_' s') \<and>
           (round_' s \<noteq> 0 \<longrightarrow> round_' s' \<noteq> 0) \<and> (round_' s = 0 \<longrightarrow> s' = s \<or> round_' s' \<noteq> 0)"
    and "a = Continue \<Longrightarrow> ev = IdleTimeout \<Longrightarrow> round_' s \<noteq> 0 \<Longrightarrow>
           unat (round_' s') = unat (round_' s) + 1"
proof -
  have "orders_seen_' s' = orders_seen_' s \<union> order ` set_option (stores s ev) \<and>
        faulty_' s' = faulty_' s \<and> processes_' s' = processes_' s \<and>
        list_all (spawns_among (orders_seen_' s')) outs \<and>
        (a = Stop \<longrightarrow> orders_seen_' s' \<noteq> {}) \<and>
        (a = Continue \<longrightarrow> run_inv s' \<and> unat (round_' s) \<le> unat (round_' s') \<and>
           (round_' s \<noteq> 0 \<longrightarrow> round_' s' \<noteq> 0) \<and> (round_' s = 0 \<longrightarrow> s' = s \<or> round_' s' \<noteq> 0)) \<and>
        (a = Continue \<longrightarrow> ev = IdleTimeout \<longrightarrow> round_' s \<noteq> 0 \<longrightarrow>
           unat (round_' s') = unat (round_' s) + 1)"
  proof (cases ev)
    case (Datagram from_addr buf)
    with assms(2) have "on_message s from_addr buf = Inr (a, s', outs)" by simp
    note m = on_message_run_inv [OF assms(1) this]
    show ?thesis
      unfolding Datagram using m by blast
  next
    case IdleTimeout
    with assms(2) have "HandleRoundTimeout s = Inr (a, s', outs)" by simp
    note m = HandleRoundTimeout_run_inv [OF assms(1) this]
    show ?thesis
      unfolding IdleTimeout using m by auto
  qed
  then show "orders_seen_' s' = orders_seen_' s \<union> order ` set_option (stores s ev)"
    and "faulty_' s' = faulty_' s" and "processes_' s' = processes_' s"
    and "list_all (spawns_among (orders_seen_' s')) outs"
    and "a = Stop \<Longrightarrow> orders_seen_' s' \<noteq> {}"
    and "a = Continue \<Longrightarrow> run_inv s' \<and> unat (round_' s) \<le> unat (round_' s') \<and>
           (round_' s \<noteq> 0 \<longrightarrow> round_' s' \<noteq> 0) \<and> (round_' s = 0 \<longrightarrow> s' = s \<or> round_' s' \<noteq> 0)"
    and "a = Continue \<Longrightarrow> ev = IdleTimeout \<Longrightarrow> round_' s \<noteq> 0 \<Longrightarrow>
           unat (round_' s') = unat (round_' s) + 1"
    by blast+
qed

lemma callback_no_raise:
  assumes "run_inv s" and "round_' s \<noteq> - 1"
  shows "callback s ev \<noteq> Inl e"
proof (cases ev)
  case IdleTimeout
  have "\<forall>m \<in> msgs_this_round_' s. round m = round_' s"
    using assms(1) by (simp add: run_inv_def listening_inv_def)
  from MoveToNewRoundOrStop_inv(3) [OF this] IdleTimeout show ?thesis
    by (simp add: HandleRoundTimeout_def)
next
  case (Datagram from_addr buf)
  have inv: "listening_inv s"
    using assms(1) by (simp add: run_inv_def)
  have "on_message s from_addr buf \<noteq> Inl e"
  proof (cases rule: on_message_cases [where s = s and from_addr = from_addr and buf = buf])
    case rejected
    then show ?thesis by simp
  next
    case undefined_read
    with assms(2) show ?thesis by simp
  next
    case duplicate
    then show ?thesis by simp
  next
    case (first msg)
    have r: "round msg = round_' s"
      using first(1) by (rule ValidMessage_True_round)
    note a = accept_first_rounds [OF inv first(2) r]
    from MoveToNewRoundOrStop_inv(3) [OF a(1)] show ?thesis
      unfolding first(4) by (auto dest: after_output_Inl)
  next
    case (stored msg)
    then show ?thesis by simp
  next
    case (complete msg)
    have r: "round msg = round_' s"
      using complete(1) by (rule ValidMessage_True_round)
    have "listening_inv (accept s msg)"
      using listening_inv_accept [OF inv complete(2) r complete(3)] .
    then have "\<forall>m \<in> msgs_this_round_' (accept s msg). round m = round_' (accept s msg)"
      by (simp add: listening_inv_def)
    from MoveToNewRoundOrStop_inv(3) [OF this] show ?thesis
      unfolding complete(5) by (auto dest: after_output_Inl)
  qed
  with Datagram show ?thesis by simp
qed


lemma spawns_among_mono:
  "spawns_among A eff \<Longrightarrow> A \<subseteq> B \<Longrightarrow> spawns_among B eff"
  by (cases eff) auto

lemma list_all_spawns_among_mono:
  "list_all (spawns_among A) outs \<Longrightarrow> A \<subseteq> B \<Longrightarrow> list_all (spawns_among B) outs"
  by (induction outs) (auto intro: spawns_among_mono)

lemma effects_of_emitted_before: "effects_of (emitted_before outs r) = (case r of Raised e \<Rightarrow> [] | _ \<Rightarrow> outs @ effects_of r)"
  by (cases r) simp_all

lemma Listen_stored:
  assumes "run_inv s"
  shows "list_all (spawns_among (orders_seen_' s \<union> order ` set (stored s evs)))
           (effects_of (Listen s evs)) \<and>
         (Listen s evs = Stopped s' outs \<longrightarrow>
            orders_seen_' s' = orders_seen_' s \<union> order ` set (stored s evs) \<and>
            orders_seen_' s' \<noteq> {})"
  using assms
proof (induction evs arbitrary: s outs)
  case Nil
  then show ?case by simp
next
  case (Cons ev evs)
  show ?case
  proof (cases "callback s ev")
    case (Inl e)
    then show ?thesis by simp
  next
    case (Inr r)
    obtain a s1 outs1 where r: "r = (a, s1, outs1)" by (cases r)
    note c = callback_run_inv [OF Cons.prems Inr [unfolded r]]
    have st: "set (case stores s ev of None \<Rightarrow> [] | Some msg \<Rightarrow> [msg]) = set_option (stores s ev)"
      by (cases "stores s ev") simp_all
    show ?thesis
    proof (cases a)
      case Stop
      have "stored s (ev # evs) = (case stores s ev of None \<Rightarrow> [] | Some msg \<Rightarrow> [msg])"
        using Inr r Stop by simp
      then have o: "orders_seen_' s \<union> order ` set (stored s (ev # evs)) = orders_seen_' s1"
        using c(1) st by simp
      have L: "Listen s (ev # evs) = Stopped s1 outs1"
        using Inr r Stop by simp
      show ?thesis
        unfolding o L using c(4) c(5) [OF Stop] by auto
    next
      case Continue
      have "stored s (ev # evs) =
              (case stores s ev of None \<Rightarrow> [] | Some msg \<Rightarrow> [msg]) @ stored s1 evs"
        using Inr r Continue by simp
      then have o: "orders_seen_' s \<union> order ` set (stored s (ev # evs)) =
                      orders_seen_' s1 \<union> order ` set (stored s1 evs)"
        using c(1) st by (simp add: image_Un Un_assoc)
      have L: "Listen s (ev # evs) = emitted_before outs1 (Listen s1 evs)"
        using Inr r Continue by simp
      have inv1: "run_inv s1"
        using c(6) [OF Continue] by simp
      note IH = Cons.IH [OF inv1]
      have o1: "list_all (spawns_among (orders_seen_' s1 \<union> order ` set (stored s1 evs))) outs1"
        using c(4) by (rule list_all_spawns_among_mono) simp
      show ?thesis
      proof (cases "Listen s1 evs")
        case (Stopped s2 outs2)
        with IH [of outs2] o1 show ?thesis
          unfolding o L by auto
      next
        case (Listening s2 outs2)
        with IH [of outs] o1 show ?thesis
          unfolding o L by auto
      next
        case (Raised e)
        then show ?thesis
          unfolding o L by simp
      qed
    qed
  qed
qed

lemma ValidMessage_round0:
  assumes "ValidMessage s msg from_addr = Inr True" and "round_' s = 0"
  shows "round msg = 0" and "hostname from_addr = hostname (processes_' s ! 0)"
proof -
  from assms show r: "round msg = 0"
    by (simp add: ValidMessage_True_round)
  from assms(1) r have len: "length (ids msg) = 1" and z: "ids msg ! 0 = 0"
    and h: "hostname (processes_' s ! unat (last (ids msg))) = hostname from_addr"
    by (auto simp: ValidMessage_def split: if_splits)
  from len obtain x where "ids msg = [x]"
    by (cases "ids msg") auto
  with z have "last (ids msg) = 0" by simp
  with h show "hostname from_addr = hostname (processes_' s ! 0)" by simp
qed

lemma stores_Some:
  assumes "stores s ev = Some msg"
  obtains from_addr buf where "ev = Datagram from_addr buf"
    and "ByzantineMsgFromBuf buf = Some msg" and "ValidMessage s msg from_addr = Inr True"
  using assms by (cases ev) (auto split: option.splits if_splits)

lemma callback_commander:
  assumes "run_inv s" and "orders_seen_' s = {} \<or> v \<in> orders_seen_' s"
    and "commander_sends v (processes_' s) ev"
    and "callback s ev = Inr (a, s', outs)"
  shows "orders_seen_' s' = {} \<or> v \<in> orders_seen_' s'"
proof (cases "stores s ev")
  case None
  with callback_run_inv(1) [OF assms(1,4)] assms(2) show ?thesis by simp
next
  case (Some msg)
  show ?thesis
  proof (cases "orders_seen_' s = {}")
    case False
    with assms(2) callback_run_inv(1) [OF assms(1,4)] show ?thesis by simp
  next
    case True
    with assms(1) have r0: "round_' s = 0"
      by (simp add: run_inv_def)
    from Some obtain from_addr buf where ev: "ev = Datagram from_addr buf"
      and d: "ByzantineMsgFromBuf buf = Some msg"
      and v: "ValidMessage s msg from_addr = Inr True"
      by (rule stores_Some)
    from ValidMessage_round0 [OF v r0] assms(3) ev d have "order msg = v"
      by simp
    with Some callback_run_inv(1) [OF assms(1,4)] show ?thesis by simp
  qed
qed

lemma Listen_commander:
  assumes "run_inv s" and "orders_seen_' s = {} \<or> v \<in> orders_seen_' s"
    and "list_all (commander_sends v (processes_' s)) evs"
    and "Listen s evs = Stopped s' outs"
  shows "v \<in> orders_seen_' s'"
  using assms
proof (induction evs arbitrary: s outs)
  case Nil
  then show ?case by simp
next
  case (Cons ev evs)
  from Cons.prems(3) have ev: "commander_sends v (processes_' s) ev"
    and evs: "list_all (commander_sends v (processes_' s)) evs"
    by simp_all
  show ?case
  proof (cases "callback s ev")
    case (Inl e)
    with Cons.prems(4) show ?thesis by simp
  next
    case (Inr r)
    obtain a s1 outs1 where r: "r = (a, s1, outs1)" by (cases r)
    note c = callback_run_inv [OF Cons.prems(1) Inr [unfolded r]]
    note k = callback_commander [OF Cons.prems(1,2) ev Inr [unfolded r]]
    show ?thesis
    proof (cases a)
      case Stop
      with Inr r Cons.prems(4) have "s' = s1" by simp
      with k c(5) [OF Stop] show ?thesis by simp
    next
      case Continue
      have L: "Listen s (ev # evs) = emitted_before outs1 (Listen s1 evs)"
        using Inr r Continue by simp
      from Cons.prems(4) have "emitted_before outs1 (Listen s1 evs) = Stopped s' outs"
        unfolding L .
      then obtain outs2 where L1: "Listen s1 evs = Stopped s' outs2"
        by (blast dest: emitted_before_Stopped)
      have inv1: "run_inv s1"
        using c(6) [OF Continue] by simp
      from evs c(3) have evs1: "list_all (commander_sends v (processes_' s1)) evs"
        by simp
      show ?thesis
        using Cons.IH [OF inv1 k evs1 L1] .
    qed
  qed
qed


lemma round_below_max:
  fixes r f :: u32
  assumes "unat r \<le> unat f" and "f \<noteq> - 1"
  shows "r \<noteq> - 1"
proof
  assume "r = - 1"
  with assms(1) have "2 ^ 32 - 1 \<le> unat f"
    by (simp add: unsigned_minus_1_eq_mask mask_eq_exp_minus_1)
  moreover have "unat f < 2 ^ 32"
    using unsigned_less [of f, where 'a = nat] by simp
  ultimately have "unat f = unat (- 1 :: u32)"
    by (simp add: unsigned_minus_1_eq_mask mask_eq_exp_minus_1)
  then have "f = - 1"
    by (simp only: word_unat_eq_iff)
  with assms(2) show False by simp
qed

lemma Listen_Stop_step:
  "callback s ev = Inr (Stop, s1, outs1) \<Longrightarrow> \<exists>s' outs. Listen s (ev # evs) = Stopped s' outs"
  by simp

lemma Listen_Continue_step:
  assumes "callback s ev = Inr (Continue, s1, outs1)"
    and "\<exists>s' outs. Listen s1 evs = Stopped s' outs"
  shows "\<exists>s' outs. Listen s (ev # evs) = Stopped s' outs"
  using assms by auto

lemma timeouts_stop:
  assumes "run_inv s" and "round_' s \<noteq> 0" and "faulty_' s \<noteq> - 1"
    and "unat (faulty_' s) - unat (round_' s) < count_list evs IdleTimeout"
  shows "\<exists>s' outs. Listen s evs = Stopped s' outs"
  using assms
proof (induction evs arbitrary: s)
  case Nil
  then show ?case by simp
next
  case (Cons ev evs)
  have le: "unat (round_' s) \<le> unat (faulty_' s)"
    using Cons.prems(1) by (simp add: run_inv_def)
  then have "round_' s \<noteq> - 1"
    using Cons.prems(3) by (rule round_below_max)
  from callback_no_raise [OF Cons.prems(1) this] obtain a s1 outs1
    where cb: "callback s ev = Inr (a, s1, outs1)"
    by (cases "callback s ev") (auto simp del: callback.simps)
  note c = callback_run_inv [OF Cons.prems(1) cb]
  show ?case
  proof (cases a)
    case Stop
    with cb show ?thesis by (auto intro: Listen_Stop_step)
  next
    case Continue
    from c(6) [OF Continue] Cons.prems(2) have inv1: "run_inv s1"
      and mono: "unat (round_' s) \<le> unat (round_' s1)" and nz: "round_' s1 \<noteq> 0"
      by simp_all
    have le1: "unat (round_' s1) \<le> unat (faulty_' s1)"
      using inv1 by (simp add: run_inv_def)
    have f1: "faulty_' s1 \<noteq> - 1"
      using c(2) Cons.prems(3) by simp
    have "unat (faulty_' s1) - unat (round_' s1) < count_list evs IdleTimeout"
    proof (cases ev)
      case (Datagram from_addr buf)
      with Cons.prems(4) mono c(2) show ?thesis by simp
    next
      case IdleTimeout
      from c(7) [OF Continue IdleTimeout Cons.prems(2)]
      have "unat (round_' s1) = unat (round_' s) + 1" .
      with Cons.prems(4) IdleTimeout c(2) le1 show ?thesis by simp
    qed
    from Cons.IH [OF inv1 nz f1 this] cb Continue show ?thesis
      by (auto intro: Listen_Continue_step)
  qed
qed

lemma relay_then_timeouts_stop:
  assumes "run_inv s" and "round_' s = 0" and "orders_seen_' s = {}" and "faulty_' s \<noteq> - 1"
    and "ByzantineMsgFromBuf buf = Some msg" and "ValidMessage s msg from_addr = Inr True"
    and "unat (faulty_' s) \<le> count_list post IdleTimeout"
  shows "\<exists>s' outs. Listen s (pre @ Datagram from_addr buf # post) = Stopped s' outs"
proof (induction pre)
  case Nil
  have "round_' s \<noteq> - 1"
    using assms(2) by simp
  from callback_no_raise [OF assms(1) this] obtain a s1 outs1
    where cb: "callback s (Datagram from_addr buf) = Inr (a, s1, outs1)"
    by (cases "callback s (Datagram from_addr buf)") (auto simp del: callback.simps)
  note c = callback_run_inv [OF assms(1) cb]
  show ?case
  proof (cases a)
    case Stop
    with cb show ?thesis by (auto intro: Listen_Stop_step)
  next
    case Continue
    have "stores s (Datagram from_addr buf) = Some msg"
      using assms(2,3,5,6) by (simp add: FirstRound_def)
    with c(1) have "orders_seen_' s1 \<noteq> orders_seen_' s"
      using assms(3) by simp
    then have "s1 \<noteq> s" by auto
    with c(6) [OF Continue] assms(2) have inv1: "run_inv s1" and nz: "round_' s1 \<noteq> 0"
      by simp_all
    have le1: "unat (round_' s1) \<le> unat (faulty_' s1)"
      using inv1 by (simp add: run_inv_def)
    from nz have "0 < unat (round_' s1)"
      by (simp add: unat_gt_0)
    with le1 assms(7) c(2)
    have m: "unat (faulty_' s1) - unat (round_' s1) < count_list post IdleTimeout"
      by simp
    have f1: "faulty_' s1 \<noteq> - 1"
      using c(2) assms(4) by simp
    from timeouts_stop [OF inv1 nz f1 m] cb Continue show ?thesis
      by (auto intro: Listen_Continue_step)
  qed
next
  case (Cons ev pre)
  have "round_' s \<noteq> - 1"
    using assms(2) by simp
  from callback_no_raise [OF assms(1) this] obtain a s1 outs1
    where cb: "callback s ev = Inr (a, s1, outs1)"
    by (cases "callback s ev") (auto simp del: callback.simps)
  note c = callback_run_inv [OF assms(1) cb]
  show ?case
  proof (cases a)
    case Stop
    with cb show ?thesis by (auto intro: Listen_Stop_step)
  next
    case Continue
    show ?thesis
    proof (cases "s1 = s")
      case True
      with Cons.IH cb Continue show ?thesis
        by (auto intro: Listen_Continue_step)
    next
      case False
      with c(6) [OF Continue] assms(2) have inv1: "run_inv s1" and nz: "round_' s1 \<noteq> 0"
        by simp_all
      have le1: "unat (round_' s1) \<le> unat (faulty_' s1)"
        using inv1 by (simp add: run_inv_def)
      from nz have "0 < unat (round_' s1)"
        by (simp add: unat_gt_0)
      with le1 assms(7) c(2)
      have m: "unat (faulty_' s1) - unat (round_' s1) <
                 count_list (pre @ Datagram from_addr buf # post) IdleTimeout"
        by simp
      have f1: "faulty_' s1 \<noteq> - 1"
        using c(2) assms(4) by simp
      from timeouts_stop [OF inv1 nz f1 m] cb Continue show ?thesis
        by (auto intro: Listen_Continue_step)
    qed
  qed
qed

lemma Decide_Stopped:
  "Lieutenant_Decide s evs = Some (Inr d) \<longleftrightarrow>
     (\<exists>s' outs. Listen s evs = Stopped s' outs \<and> d = DecideOrder s')"
  by (auto simp: Lieutenant_Decide_def split: listen_result.splits)

lemma DecideOrder_stored:
  assumes "orders_seen_' s' = order ` set msgs" and "msgs \<noteq> []"
  shows "DecideOrder s' =
           (if list_all (\<lambda>msg. order msg = ATTACK) msgs then ATTACK else RETREAT)"
proof -
  have "order ` set msgs = {ATTACK} \<longleftrightarrow> list_all (\<lambda>msg. order msg = ATTACK) msgs"
    using assms(2) by (cases msgs) (auto simp: list_all_iff)
  then show ?thesis
    using DecideOrder_by_set [of s'] assms(1) by simp
qed


lemma Decide_by_stored:
  assumes "Lieutenant_Decide (new_Lieutenant i ps m) evs = Some (Inr d)"
  shows "stored (new_Lieutenant i ps m) evs \<noteq> []"
    and "d = (if list_all (\<lambda>msg. order msg = ATTACK) (stored (new_Lieutenant i ps m) evs)
              then ATTACK else RETREAT)"
proof -
  from assms obtain s' outs where
    L: "Listen (new_Lieutenant i ps m) evs = Stopped s' outs" and d: "d = DecideOrder s'"
    unfolding Decide_Stopped by blast
  have e: "orders_seen_' (new_Lieutenant i ps m) = {}"
    by (simp add: new_Lieutenant_def)
  note ls = Listen_stored [OF run_inv_new, of i ps m evs s' outs,
      THEN conjunct2, rule_format, OF L]
  from ls e have o: "orders_seen_' s' = order ` set (stored (new_Lieutenant i ps m) evs)"
    by simp
  from ls have ne: "orders_seen_' s' \<noteq> {}"
    by blast
  from o ne show ne': "stored (new_Lieutenant i ps m) evs \<noteq> []"
    by auto
  from DecideOrder_stored [OF o ne'] d
  show "d = (if list_all (\<lambda>msg. order msg = ATTACK) (stored (new_Lieutenant i ps m) evs)
              then ATTACK else RETREAT)"
    by simp
qed

lemma Decide_commander:
  assumes "list_all (commander_sends v ps) evs"
    and "Lieutenant_Decide (new_Lieutenant i ps m) evs = Some (Inr d)"
  shows "v \<in> order ` set (stored (new_Lieutenant i ps m) evs)"
proof -
  from assms(2) obtain s' outs where
    L: "Listen (new_Lieutenant i ps m) evs = Stopped s' outs"
    unfolding Decide_Stopped by blast
  have e: "orders_seen_' (new_Lieutenant i ps m) = {}"
    and p: "processes_' (new_Lieutenant i ps m) = ps"
    by (simp_all add: new_Lieutenant_def)
  note ls = Listen_stored [OF run_inv_new, of i ps m evs s' outs,
      THEN conjunct2, rule_format, OF L]
  from ls e have o: "orders_seen_' s' = order ` set (stored (new_Lieutenant i ps m) evs)"
    by simp
  have "v \<in> orders_seen_' s'"
    using Listen_commander [OF run_inv_new _ _ L, of v] assms(1) e p by simp
  with o show ?thesis by simp
qed

text \<open>
  C1, as the code has it. A Lieutenant decides on the orders of the relays it stored, and
  nothing in a relay vouches for the order it carries. For every Lieutenant started in
  round 0 and everything the network may deliver to it:
  when \<^verbatim>\<open>Decide\<close> returns, the Lieutenant has stored a relay, and it returns ATTACK if
  every relay it stored carries ATTACK and RETREAT otherwise;
  two Lieutenants that return, return the same order exactly when both or neither of
  them stored ATTACK relays only;
  a Lieutenant that stored only relays with the Commander's order returns that order,
  which is what \<^verbatim>\<open>Commander::Decide\<close> returns;
  when the Commander is correct, its order is among the stored ones, so for RETREAT the
  Lieutenant returns RETREAT whatever the other processes send, and for ATTACK it returns
  ATTACK exactly when no stored relay carries another order;
  every relay a Lieutenant spawns carries the order of a relay it stored;
  \<^verbatim>\<open>Decide\<close> does not end in the \<^verbatim>\<open>logic_error\<close>;
  and \<^verbatim>\<open>Decide\<close> returns once a relay has arrived that is valid in round 0 and \<open>m\<close>
  idle timeouts have followed it, whatever else arrives before, between and after them
  (for \<open>m\<close> below the largest \<^verbatim>\<open>unsigned int\<close>).
\<close>

theorem C1_lieutenants_return_by_the_orders_stored:
  "(Lieutenant_Decide (new_Lieutenant i ps m) evs = Some (Inr d) \<longrightarrow>
      stored (new_Lieutenant i ps m) evs \<noteq> [] \<and>
      d = (if list_all (\<lambda>msg. order msg = ATTACK) (stored (new_Lieutenant i ps m) evs)
           then ATTACK else RETREAT)) \<and>
   (Lieutenant_Decide (new_Lieutenant i ps m) evs = Some (Inr d) \<and>
    Lieutenant_Decide (new_Lieutenant j ps m) evs' = Some (Inr d') \<longrightarrow>
      (d = d' \<longleftrightarrow>
         (list_all (\<lambda>msg. order msg = ATTACK) (stored (new_Lieutenant i ps m) evs) \<longleftrightarrow>
          list_all (\<lambda>msg. order msg = ATTACK) (stored (new_Lieutenant j ps m) evs')))) \<and>
   (Lieutenant_Decide (new_Lieutenant i ps m) evs = Some (Inr d) \<and>
    (order_' c = ATTACK \<or> order_' c = RETREAT) \<and>
    list_all (\<lambda>msg. order msg = order_' c) (stored (new_Lieutenant i ps m) evs) \<longrightarrow>
      d = snd (Commander_Decide c)) \<and>
   (Lieutenant_Decide (new_Lieutenant i ps m) evs = Some (Inr d) \<and>
    list_all (commander_sends (order_' c) ps) evs \<longrightarrow>
      order_' c \<in> order ` set (stored (new_Lieutenant i ps m) evs) \<and>
      (order_' c = RETREAT \<longrightarrow> d = snd (Commander_Decide c)) \<and>
      (order_' c = ATTACK \<longrightarrow>
         (d = snd (Commander_Decide c) \<longleftrightarrow>
            list_all (\<lambda>msg. order msg = ATTACK) (stored (new_Lieutenant i ps m) evs)))) \<and>
   list_all (spawns_among (order ` set (stored (new_Lieutenant i ps m) evs)))
     (effects_of (Listen (new_Lieutenant i ps m) evs)) \<and>
   Lieutenant_Decide (new_Lieutenant i ps m) evs \<noteq> Some (Inl LogicError) \<and>
   (m \<noteq> - 1 \<and> ByzantineMsgFromBuf buf = Some msg \<and>
    ValidMessage (new_Lieutenant i ps m) msg from_addr = Inr True \<and>
    unat m \<le> count_list post IdleTimeout \<longrightarrow>
      (\<exists>r. Lieutenant_Decide (new_Lieutenant i ps m) (pre @ Datagram from_addr buf # post) =
             Some (Inr r)))"
proof (intro conjI impI)
  let ?all = "\<lambda>k es. list_all (\<lambda>msg. order msg = ATTACK) (stored (new_Lieutenant k ps m) es)"
  have ne: "ATTACK \<noteq> RETREAT"
    by (simp add: ATTACK_def RETREAT_def)
  show "stored (new_Lieutenant i ps m) evs \<noteq> []"
    if "Lieutenant_Decide (new_Lieutenant i ps m) evs = Some (Inr d)"
    using that by (rule Decide_by_stored(1))
  show "d = (if ?all i evs then ATTACK else RETREAT)"
    if "Lieutenant_Decide (new_Lieutenant i ps m) evs = Some (Inr d)"
    using that by (rule Decide_by_stored(2))
  show "d = d' \<longleftrightarrow> (?all i evs \<longleftrightarrow> ?all j evs')"
    if "Lieutenant_Decide (new_Lieutenant i ps m) evs = Some (Inr d) \<and>
        Lieutenant_Decide (new_Lieutenant j ps m) evs' = Some (Inr d')"
    using Decide_by_stored(2) [of i ps m evs d] Decide_by_stored(2) [of j ps m evs' d'] that ne
    by auto
  show "d = snd (Commander_Decide c)"
    if h: "Lieutenant_Decide (new_Lieutenant i ps m) evs = Some (Inr d) \<and>
        (order_' c = ATTACK \<or> order_' c = RETREAT) \<and>
        list_all (\<lambda>msg. order msg = order_' c) (stored (new_Lieutenant i ps m) evs)"
  proof -
    from h have dec: "Lieutenant_Decide (new_Lieutenant i ps m) evs = Some (Inr d)"
      and v: "order_' c = ATTACK \<or> order_' c = RETREAT"
      and a: "list_all (\<lambda>msg. order msg = order_' c) (stored (new_Lieutenant i ps m) evs)"
      by simp_all
    note s = Decide_by_stored [OF dec]
    from s(1) obtain x xs where xs: "stored (new_Lieutenant i ps m) evs = x # xs"
      by (cases "stored (new_Lieutenant i ps m) evs") auto
    from v show ?thesis
    proof
      assume "order_' c = ATTACK"
      with a s(2) show ?thesis by (simp add: Commander_Decide_def)
    next
      assume r: "order_' c = RETREAT"
      with a xs ne have "\<not> ?all i evs" by auto
      with s(2) r show ?thesis by (simp add: Commander_Decide_def)
    qed
  qed
  show "order_' c \<in> order ` set (stored (new_Lieutenant i ps m) evs)"
    if "Lieutenant_Decide (new_Lieutenant i ps m) evs = Some (Inr d) \<and>
        list_all (commander_sends (order_' c) ps) evs"
    using that Decide_commander [of "order_' c" ps evs i m d] by simp
  show "d = snd (Commander_Decide c)"
    if h: "Lieutenant_Decide (new_Lieutenant i ps m) evs = Some (Inr d) \<and>
        list_all (commander_sends (order_' c) ps) evs" and r: "order_' c = RETREAT"
  proof -
    from h have "order_' c \<in> order ` set (stored (new_Lieutenant i ps m) evs)"
      using Decide_commander [of "order_' c" ps evs i m d] by simp
    with r obtain x where "x \<in> set (stored (new_Lieutenant i ps m) evs)"
      and "order x = RETREAT"
      by auto
    with ne have "\<not> ?all i evs"
      unfolding list_all_iff by (metis (full_types))
    with h r Decide_by_stored(2) [of i ps m evs d] show ?thesis
      by (simp add: Commander_Decide_def)
  qed
  show "d = snd (Commander_Decide c) \<longleftrightarrow> ?all i evs"
    if h: "Lieutenant_Decide (new_Lieutenant i ps m) evs = Some (Inr d) \<and>
        list_all (commander_sends (order_' c) ps) evs" and r: "order_' c = ATTACK"
    using h r ne Decide_by_stored(2) [of i ps m evs d] by (auto simp: Commander_Decide_def)
  show "list_all (spawns_among (order ` set (stored (new_Lieutenant i ps m) evs)))
          (effects_of (Listen (new_Lieutenant i ps m) evs))"
    using Listen_stored [OF run_inv_new, of i ps m evs] by (simp add: new_Lieutenant_def)
  show "Lieutenant_Decide (new_Lieutenant i ps m) evs \<noteq> Some (Inl LogicError)"
    using Listen_inv [OF listening_inv_new, of i ps m evs]
    by (auto simp: Lieutenant_Decide_def split: listen_result.splits)
  show "\<exists>r. Lieutenant_Decide (new_Lieutenant i ps m) (pre @ Datagram from_addr buf # post) =
          Some (Inr r)"
    if h: "m \<noteq> - 1 \<and> ByzantineMsgFromBuf buf = Some msg \<and>
        ValidMessage (new_Lieutenant i ps m) msg from_addr = Inr True \<and>
        unat m \<le> count_list post IdleTimeout"
  proof -
    have "\<exists>s' outs. Listen (new_Lieutenant i ps m) (pre @ Datagram from_addr buf # post) =
            Stopped s' outs"
      using h by (intro relay_then_timeouts_stop [OF run_inv_new, where msg = msg])
        (simp_all add: new_Lieutenant_def)
    then show ?thesis
      unfolding Decide_Stopped by blast
  qed
qed

lemma toSend_p1:
  "toSend (IncrementRound (accept_first (new_Lieutenant 1 hosts4 1) relay_from_commander)) =
     {(2, relay_via 1 ATTACK), (3, relay_via 1 ATTACK)}"
  by (auto simp: toSend_def forward_def IncrementRound_def accept_first_def run_defs relay_via_def)

lemma toSend_p2:
  "toSend (IncrementRound (accept_first (new_Lieutenant 2 hosts4 1) relay_from_commander)) =
     {(1, relay_via 2 ATTACK), (3, relay_via 2 ATTACK)}"
  by (auto simp: toSend_def forward_def IncrementRound_def accept_first_def run_defs relay_via_def)

lemma Listen_first_event_p1:
  "Listen (new_Lieutenant 1 hosts4 1) [Datagram from_p0 (SendMessage 0 relay_from_commander)] =
     Listening
       ((IncrementRound (accept_first (new_Lieutenant 1 hosts4 1) relay_from_commander))
          \<lparr>msgs_this_round_' := {}, ids_this_round_' := {}\<rparr>)
       [AckSent from_p0 0,
        RelaysSpawned (toSend (IncrementRound
          (accept_first (new_Lieutenant 1 hosts4 1) relay_from_commander)))]"
  by (simp add: on_message_def ByzantineMsgFromBuf_SendMessage ValidMessage_def FirstRound_def
      LastRound_def MoveToNewRoundOrStop_def InitNewRound_def after_output_def Let_def run_defs)
    (simp add: IncrementRound_def accept_first_def)

lemma Listen_first_event_p2:
  "Listen (new_Lieutenant 2 hosts4 1) [Datagram from_p0 (SendMessage 0 relay_from_commander)] =
     Listening
       ((IncrementRound (accept_first (new_Lieutenant 2 hosts4 1) relay_from_commander))
          \<lparr>msgs_this_round_' := {}, ids_this_round_' := {}\<rparr>)
       [AckSent from_p0 0,
        RelaysSpawned (toSend (IncrementRound
          (accept_first (new_Lieutenant 2 hosts4 1) relay_from_commander)))]"
  by (simp add: on_message_def ByzantineMsgFromBuf_SendMessage ValidMessage_def FirstRound_def
      LastRound_def MoveToNewRoundOrStop_def InitNewRound_def after_output_def Let_def run_defs)
    (simp add: IncrementRound_def accept_first_def)

text \<open>
  C1 as stated fails, with \<open>n = 4\<close>, \<open>m = 1\<close> and two rounds. The Commander is correct
  and sends ATTACK to the three Lieutenants; Lieutenants 1 and 2 are correct and relay
  ATTACK to the others; the Byzantine process 3 relays RETREAT to Lieutenant 1 and
  ATTACK to Lieutenant 2. Lieutenant 1 returns RETREAT and Lieutenant 2 returns ATTACK:
  they disagree, and Lieutenant 1 does not return the correct Commander's order.
\<close>

theorem C1_forged_relay_splits_the_lieutenants:
  "Commander_Decide commander4 =
     ([(1, relay_from_commander), (2, relay_from_commander), (3, relay_from_commander)], ATTACK) \<and>
   effects_of (Listen (new_Lieutenant 1 hosts4 1)
       [Datagram from_p0 (SendMessage 0 relay_from_commander)]) =
     [AckSent from_p0 0, RelaysSpawned {(2, relay_via 1 ATTACK), (3, relay_via 1 ATTACK)}] \<and>
   effects_of (Listen (new_Lieutenant 2 hosts4 1)
       [Datagram from_p0 (SendMessage 0 relay_from_commander)]) =
     [AckSent from_p0 0, RelaysSpawned {(1, relay_via 2 ATTACK), (3, relay_via 2 ATTACK)}] \<and>
   Lieutenant_Decide (new_Lieutenant 1 hosts4 1) events_p1_forged = Some (Inr RETREAT) \<and>
   Lieutenant_Decide (new_Lieutenant 2 hosts4 1) events_p2 = Some (Inr ATTACK)"
proof -
  have "Commander_Decide commander4 =
     ([(1, relay_from_commander), (2, relay_from_commander), (3, relay_from_commander)], ATTACK)"
    by (simp add: Commander_Decide_def commander4_def run_defs upt_rec)
  moreover have "effects_of (Listen (new_Lieutenant 1 hosts4 1)
       [Datagram from_p0 (SendMessage 0 relay_from_commander)]) =
     [AckSent from_p0 0, RelaysSpawned {(2, relay_via 1 ATTACK), (3, relay_via 1 ATTACK)}]"
    by (simp only: Listen_first_event_p1 effects_of.simps toSend_p1)
  moreover have "effects_of (Listen (new_Lieutenant 2 hosts4 1)
       [Datagram from_p0 (SendMessage 0 relay_from_commander)]) =
     [AckSent from_p0 0, RelaysSpawned {(1, relay_via 2 ATTACK), (3, relay_via 2 ATTACK)}]"
    by (simp only: Listen_first_event_p2 effects_of.simps toSend_p2)
  moreover have "Lieutenant_Decide (new_Lieutenant 1 hosts4 1) events_p1_forged = Some (Inr RETREAT)"
    by (simp add: Lieutenant_Decide_def DecideOrder_def events_p1_forged_def relay_via_def
        step_simps run_defs ATTACK_def RETREAT_def)
  moreover have "Lieutenant_Decide (new_Lieutenant 2 hosts4 1) events_p2 = Some (Inr ATTACK)"
    by (simp add: Lieutenant_Decide_def DecideOrder_def events_p2_def relay_via_def
        step_simps run_defs ATTACK_def RETREAT_def)
  ultimately show ?thesis
    by (intro conjI)
qed

lemmas scenario_defs = events_p1_def events_p2_def events_p1_split_def events_p2_split_def
  events_p1_retreat_forged_def events_p1_forged_def relay_via_def
  relay_retreat_from_commander_def

lemmas decide_simps = Lieutenant_Decide_def DecideOrder_def ATTACK_def RETREAT_def
  card_insert_if

theorem C1_runs_of_four_processes_witness:
  "Lieutenant_Decide (new_Lieutenant 1 hosts4 1) events_p1 =
     Some (Inr (snd (Commander_Decide commander4))) \<and>
   Lieutenant_Decide (new_Lieutenant 1 hosts4 1) events_p1_split = Some (Inr RETREAT) \<and>
   Lieutenant_Decide (new_Lieutenant 2 hosts4 1) events_p2_split = Some (Inr RETREAT) \<and>
   Lieutenant_Decide (new_Lieutenant 1 hosts4 1) events_p1_retreat_forged =
     Some (Inr (snd (Commander_Decide commander4_retreat))) \<and>
   (\<exists>r. Lieutenant_Decide (new_Lieutenant 1 hosts4 1)
          ([IdleTimeout, Datagram from_p3 [0]] @
           Datagram from_p0 (SendMessage 0 relay_from_commander) #
           [Datagram from_p2 (SendMessage 0 (relay_via 2 ATTACK)), IdleTimeout]) = Some (Inr r))"
proof -
  have d1: "Lieutenant_Decide (new_Lieutenant 1 hosts4 1) events_p1 = Some (Inr ATTACK)"
    by (simp add: decide_simps scenario_defs step_simps run_defs)
  have s1: "list_all (\<lambda>msg. order msg = order_' commander4)
              (stored (new_Lieutenant 1 hosts4 1) events_p1)"
    by (simp add: commander4_def scenario_defs step_simps run_defs ATTACK_def)
  have d3: "Lieutenant_Decide (new_Lieutenant 1 hosts4 1) events_p1_split = Some (Inr RETREAT)"
    by (simp add: decide_simps scenario_defs step_simps run_defs)
  have d4: "Lieutenant_Decide (new_Lieutenant 2 hosts4 1) events_p2_split = Some (Inr RETREAT)"
    by (simp add: decide_simps scenario_defs step_simps run_defs)
  have d5: "Lieutenant_Decide (new_Lieutenant 1 hosts4 1) events_p1_retreat_forged =
              Some (Inr RETREAT)"
    by (simp add: decide_simps scenario_defs step_simps run_defs)
  have h5: "list_all (commander_sends (order_' commander4_retreat) hosts4)
              events_p1_retreat_forged"
    by (simp add: commander4_retreat_def scenario_defs ByzantineMsgFromBuf_SendMessage run_defs)
  have c5: "order_' commander4_retreat = RETREAT"
    by (simp add: commander4_retreat_def)
  have c1: "order_' commander4 = ATTACK"
    by (simp add: commander4_def)
  have v: "ValidMessage (new_Lieutenant 1 hosts4 1) relay_from_commander from_p0 = Inr True"
    by (simp add: ValidMessage_def run_defs)
  have t: "unat (1 :: u32) \<le> count_list
             [Datagram from_p2 (SendMessage 0 (relay_via 2 ATTACK)), IdleTimeout] IdleTimeout"
    by simp
  have m: "(1 :: u32) \<noteq> - 1"
    by simp
  have b: "ByzantineMsgFromBuf (SendMessage 0 relay_from_commander) = Some relay_from_commander"
    by (rule ByzantineMsgFromBuf_SendMessage)
  have "ATTACK = snd (Commander_Decide commander4)"
    using C1_lieutenants_return_by_the_orders_stored [where i = 1 and ps = hosts4 and m = 1 and evs = events_p1 and d = ATTACK
        and c = commander4] d1 s1 c1
    by blast
  moreover have "RETREAT = snd (Commander_Decide commander4_retreat)"
    using C1_lieutenants_return_by_the_orders_stored [where i = 1 and ps = hosts4 and m = 1 and evs = events_p1_retreat_forged
        and d = RETREAT and c = commander4_retreat] d5 h5 c5
    by blast
  moreover have "\<exists>r. Lieutenant_Decide (new_Lieutenant 1 hosts4 1)
          ([IdleTimeout, Datagram from_p3 [0]] @
           Datagram from_p0 (SendMessage 0 relay_from_commander) #
           [Datagram from_p2 (SendMessage 0 (relay_via 2 ATTACK)), IdleTimeout]) = Some (Inr r)"
    using C1_lieutenants_return_by_the_orders_stored [where i = 1 and ps = hosts4 and m = 1
        and pre = "[IdleTimeout, Datagram from_p3 [0]]" and from_addr = from_p0
        and buf = "SendMessage 0 relay_from_commander" and msg = relay_from_commander
        and post = "[Datagram from_p2 (SendMessage 0 (relay_via 2 ATTACK)), IdleTimeout]"]
      v t m b
    by blast
  ultimately show ?thesis
    using d1 d3 d4 d5 by simp
qed

end
